theory Spec2Isabelle
  imports Main "HOL-Library.Char_ord" "HOL-Library.List_Lexorder"
  "HOL-Library.Product_Lexorder" "HOL-Library.Word"
begin

unbundle bit_operations_syntax

section \<open>JavaScript values\<close>

text \<open>
  The services are JavaScript. A string is a \<^typ>\<open>string\<close>: a list of code units,
  here the code units below 256; the order of \<^typ>\<open>string\<close> is the lexicographic
  order of the code units, which is the order of the default \<^verbatim>\<open>Array.prototype.sort\<close>
  on strings.

  A number is a \<open>jsnumber\<close>. A finite number is written \<open>Fin s e\<close> and stands for
  the decimal \<open>s * 10 ^ e\<close>: the shortest decimal that reads back as the same double,
  which is the decimal \<^verbatim>\<open>String(v)\<close> prints and JSON text carries. The three
  non-finite numbers are constructors of their own.

  A value tree is a \<open>jsval\<close>. An object is the list of its own enumerable
  properties, in the order \<^verbatim>\<open>Object.keys\<close> lists them; the keys of a JavaScript
  object are distinct.
  \<open>JDate\<close> is a \<^verbatim>\<open>Date\<close>, the object with a \<^verbatim>\<open>toJSON\<close> method that the source
  names: \<^verbatim>\<open>toJSON()\<close> gives its ISO string, or \<^verbatim>\<open>null\<close> for an invalid date.
\<close>

datatype jsnumber = Fin int int | NaN | PosInf | NegInf

datatype jsval =
    JUndefined
  | JNull
  | JBool bool
  | JNum jsnumber
  | JStr string
  | JDate "string option"
  | JArr "jsval list"
  | JObj "(string \<times> jsval) list"

subsection \<open>\<^verbatim>\<open>String(v)\<close> of a finite number\<close>

definition digit_char :: "nat \<Rightarrow> char" where
  "digit_char d = char_of (48 + d)"

text \<open>The decimal digits of an integer that is not negative.\<close>

function decimal :: "int \<Rightarrow> string" where
  "decimal n =
     (if n < 10 then [digit_char (nat n)] else decimal (n div 10) @ [digit_char (nat (n mod 10))])"
  by pat_completeness auto
termination
  by (relation "measure nat") auto

declare decimal.simps [simp del]

text \<open>
  The least \<open>k\<close> digits \<open>s\<close> with \<open>s * 10 ^ (n - k)\<close> the number: trailing zeros of the
  mantissa move into the exponent.
\<close>

function strip_zeros :: "int \<Rightarrow> int \<Rightarrow> int \<times> int" where
  "strip_zeros s e = (if 0 < s \<and> s mod 10 = 0 then strip_zeros (s div 10) (e + 1) else (s, e))"
  by pat_completeness auto
termination
  by (relation "measure (\<lambda>(s, e). nat s)") auto

declare strip_zeros.simps [simp del]

text \<open>ECMAScript's \<^verbatim>\<open>Number::toString\<close> in radix 10, for a positive decimal.\<close>

definition positive_to_string :: "int \<Rightarrow> int \<Rightarrow> string" where
  "positive_to_string s0 e0 =
     (let (s, e) = strip_zeros s0 e0;
          ds = decimal s;
          k = int (length ds);
          n = k + e
      in if - 6 < n \<and> n \<le> 21 then
           (if k \<le> n then ds @ replicate (nat (n - k)) (CHR ''0'')
            else if 0 < n then take (nat n) ds @ ''.'' @ drop (nat n) ds
            else ''0.'' @ replicate (nat (- n)) (CHR ''0'') @ ds)
         else
           (let x = n - 1;
                sign = (if x < 0 then ''-'' else ''+'');
                ex = decimal \<bar>x\<bar>
            in if k = 1 then ds @ ''e'' @ sign @ ex
               else take 1 ds @ ''.'' @ drop 1 ds @ ''e'' @ sign @ ex))"

definition number_to_string :: "int \<Rightarrow> int \<Rightarrow> string" where
  "number_to_string s e =
     (if s = 0 then ''0''
      else if s < 0 then ''-'' @ positive_to_string (- s) e
      else positive_to_string s e)"

subsection \<open>\<^verbatim>\<open>JSON.stringify\<close> of a string, \<^verbatim>\<open>join\<close>\<close>

definition hex_digit :: "nat \<Rightarrow> char" where
  "hex_digit d = (if d < 10 then char_of (48 + d) else char_of (87 + d))"

definition quote_char :: "char \<Rightarrow> string" where
  "quote_char c =
     (let n = (of_char c :: nat) in
      if n = 8 then [CHR 0x5C, CHR ''b'']
      else if n = 9 then [CHR 0x5C, CHR ''t'']
      else if n = 10 then [CHR 0x5C, CHR ''n'']
      else if n = 12 then [CHR 0x5C, CHR ''f'']
      else if n = 13 then [CHR 0x5C, CHR ''r'']
      else if n = 34 then [CHR 0x5C, CHR 0x22]
      else if n = 92 then [CHR 0x5C, CHR 0x5C]
      else if n < 32 then [CHR 0x5C, CHR ''u'', CHR ''0'', CHR ''0'', hex_digit (n div 16), hex_digit (n mod 16)]
      else [c])"

definition JSON_stringify_string :: "string \<Rightarrow> string" where
  "JSON_stringify_string s = [CHR 0x22] @ concat (map quote_char s) @ [CHR 0x22]"

fun join :: "string \<Rightarrow> string list \<Rightarrow> string" where
  "join sep [] = []"
| "join sep [x] = x"
| "join sep (x # y # ys) = x @ sep @ join sep (y # ys)"

subsection \<open>\<^verbatim>\<open>stableStringify\<close>\<close>

text \<open>\<^verbatim>\<open>v[k]\<close> for an own key of an object; a key that is absent reads \<^verbatim>\<open>undefined\<close>.\<close>

definition get_prop :: "(string \<times> jsval) list \<Rightarrow> string \<Rightarrow> jsval" where
  "get_prop kvs k = (case map_of kvs k of Some v \<Rightarrow> v | None \<Rightarrow> JUndefined)"

text \<open>
  The function of \<^verbatim>\<open>services/api/src/index.js\<close> and of \<^verbatim>\<open>services/worker/src/worker.js\<close>
  (the two copies are the same text), branch by branch. For a \<^verbatim>\<open>Date\<close> the call
  \<^verbatim>\<open>stableStringify(v.toJSON())\<close> is on a string or on \<^verbatim>\<open>null\<close>, and is written as the
  branch it takes.
\<close>

function (sequential) stableStringify :: "jsval \<Rightarrow> string" where
  "stableStringify JNull = ''null''"
| "stableStringify JUndefined = ''null''"
| "stableStringify (JNum n) = (case n of Fin s e \<Rightarrow> number_to_string s e | _ \<Rightarrow> ''null'')"
| "stableStringify (JBool b) = (if b then ''true'' else ''false'')"
| "stableStringify (JStr s) = JSON_stringify_string s"
| "stableStringify (JArr vs) = ''['' @ join '','' (map stableStringify vs) @ '']''"
| "stableStringify (JDate (Some t)) = JSON_stringify_string t"
| "stableStringify (JDate None) = ''null''"
| "stableStringify (JObj kvs) =
     (let keys = sort (map fst kvs)
      in ''{'' @ join '','' (map (\<lambda>k. JSON_stringify_string k @ '':'' @ stableStringify (get_prop kvs k)) keys) @ ''}'')"
  by pat_completeness auto
termination
proof (relation "measure size")
  show "wf (measure size)" by simp
next
  fix vs :: "jsval list" and x
  assume "x \<in> set vs"
  then have "size x < Suc (size_list size vs)"
    by (induction vs) auto
  then show "(x, JArr vs) \<in> measure size" by simp
next
  fix kvs :: "(string \<times> jsval) list" and keys k
  assume "keys = sort (map fst kvs)" and "k \<in> set keys"
  then have "k \<in> fst ` set kvs" by simp
  then have "size (get_prop kvs k) < Suc (size_list (size_prod (\<lambda>_. 0) size) kvs)"
  proof (induction kvs)
    case Nil
    then show ?case by simp
  next
    case (Cons kv kvs)
    show ?case
    proof (cases "k = fst kv")
      case True
      then show ?thesis by (cases kv) (simp add: get_prop_def)
    next
      case False
      with Cons.prems have "k \<in> fst ` set kvs" by auto
      from Cons.IH [OF this] False show ?thesis by (cases kv) (simp add: get_prop_def)
    qed
  qed
  then show "(get_prop kvs k, JObj kvs) \<in> measure size" by simp
qed


subsection \<open>Trees that differ in the order of their keys only\<close>

text \<open>
  \<open>same_value u v\<close>: the trees \<open>u\<close> and \<open>v\<close> are equal up to the order in which the
  keys of their objects were inserted, at every depth. Two objects are the same value
  when they have the same keys, each key once, and hold the same value under every
  key; two arrays when they have the same values at the same places.
\<close>

inductive same_value :: "jsval \<Rightarrow> jsval \<Rightarrow> bool" where
  same_refl: "same_value v v"
| same_arr: "list_all2 same_value us vs \<Longrightarrow> same_value (JArr us) (JArr vs)"
| same_obj: "distinct (map fst kvs1) \<Longrightarrow> distinct (map fst kvs2) \<Longrightarrow>
     set (map fst kvs1) = set (map fst kvs2) \<Longrightarrow>
     (\<And>k. k \<in> set (map fst kvs1) \<Longrightarrow> same_value (get_prop kvs1 k) (get_prop kvs2 k)) \<Longrightarrow>
     same_value (JObj kvs1) (JObj kvs2)"

section \<open>\<^verbatim>\<open>sha256Hex\<close>\<close>

text \<open>
  \<^verbatim>\<open>crypto.createHash("sha256").update(s, "utf8").digest("hex")\<close>: the UTF-8 bytes of
  the string, SHA-256 as FIPS 180-4 defines it, and the 64 lowercase hexadecimal digits
  of the digest. The round constants and the initial hash value of the standard are
  written in decimal. No proof of the ledger's properties unfolds the hash: they hold
  for it as for any function from strings to strings.
\<close>

definition utf8 :: "string \<Rightarrow> nat list" where
  "utf8 s = concat (map (\<lambda>c. let n = (of_char c :: nat) in
                              if n < 128 then [n] else [192 + n div 64, 128 + n mod 64]) s)"

definition sha256_K :: "32 word list" where
  "sha256_K =
     [1116352408, 1899447441, 3049323471, 3921009573,
      961987163, 1508970993, 2453635748, 2870763221,
      3624381080, 310598401, 607225278, 1426881987,
      1925078388, 2162078206, 2614888103, 3248222580,
      3835390401, 4022224774, 264347078, 604807628,
      770255983, 1249150122, 1555081692, 1996064986,
      2554220882, 2821834349, 2952996808, 3210313671,
      3336571891, 3584528711, 113926993, 338241895,
      666307205, 773529912, 1294757372, 1396182291,
      1695183700, 1986661051, 2177026350, 2456956037,
      2730485921, 2820302411, 3259730800, 3345764771,
      3516065817, 3600352804, 4094571909, 275423344,
      430227734, 506948616, 659060556, 883997877,
      958139571, 1322822218, 1537002063, 1747873779,
      1955562222, 2024104815, 2227730452, 2361852424,
      2428436474, 2756734187, 3204031479, 3329325298]"

definition sha256_H0 :: "32 word list" where
  "sha256_H0 =
     [1779033703, 3144134277, 1013904242, 2773480762,
      1359893119, 2600822924, 528734635, 1541459225]"

text \<open>The \<open>k\<close> least significant digits of \<open>n\<close> in base \<open>b\<close>, most significant first.\<close>

fun big_endian :: "nat \<Rightarrow> int \<Rightarrow> int \<Rightarrow> nat list" where
  "big_endian 0 b n = []"
| "big_endian (Suc k) b n = big_endian k b (n div b) @ [nat (n mod b)]"

definition sha256_pad :: "nat list \<Rightarrow> nat list" where
  "sha256_pad bs =
     (let l = length bs;
          z = (119 - l mod 64) mod 64;
          bits = 8 * int l
      in bs @ [128] @ replicate z 0 @ big_endian 8 256 bits)"

fun sha256_words :: "nat list \<Rightarrow> 32 word list" where
  "sha256_words (a # b # c # d # bs) =
     (push_bit 24 (word_of_nat a) + push_bit 16 (word_of_nat b) + push_bit 8 (word_of_nat c)
        + word_of_nat d) # sha256_words bs"
| "sha256_words _ = []"

fun sha256_blocks :: "32 word list \<Rightarrow> 32 word list list" where
  "sha256_blocks ws = (if length ws < 16 then [] else take 16 ws # sha256_blocks (drop 16 ws))"

declare sha256_blocks.simps [simp del]

definition sha256_ssig0 :: "32 word \<Rightarrow> 32 word" where
  "sha256_ssig0 x = word_rotr 7 x XOR word_rotr 18 x XOR drop_bit 3 x"

definition sha256_ssig1 :: "32 word \<Rightarrow> 32 word" where
  "sha256_ssig1 x = word_rotr 17 x XOR word_rotr 19 x XOR drop_bit 10 x"

definition sha256_bsig0 :: "32 word \<Rightarrow> 32 word" where
  "sha256_bsig0 x = word_rotr 2 x XOR word_rotr 13 x XOR word_rotr 22 x"

definition sha256_bsig1 :: "32 word \<Rightarrow> 32 word" where
  "sha256_bsig1 x = word_rotr 6 x XOR word_rotr 11 x XOR word_rotr 25 x"

definition sha256_ch :: "32 word \<Rightarrow> 32 word \<Rightarrow> 32 word \<Rightarrow> 32 word" where
  "sha256_ch x y z = (x AND y) XOR (NOT x AND z)"

definition sha256_maj :: "32 word \<Rightarrow> 32 word \<Rightarrow> 32 word \<Rightarrow> 32 word" where
  "sha256_maj x y z = (x AND y) XOR (x AND z) XOR (y AND z)"

fun sha256_schedule :: "nat \<Rightarrow> 32 word list \<Rightarrow> 32 word list" where
  "sha256_schedule 0 w = w"
| "sha256_schedule (Suc n) w =
     (let t = length w
      in sha256_schedule n
           (w @ [sha256_ssig1 (w ! (t - 2)) + w ! (t - 7) + sha256_ssig0 (w ! (t - 15)) + w ! (t - 16)]))"

definition sha256_round :: "32 word \<times> 32 word \<Rightarrow> 32 word list \<Rightarrow> 32 word list" where
  "sha256_round kw st =
     (let a = st ! 0; b = st ! 1; c = st ! 2; d = st ! 3;
          e = st ! 4; f = st ! 5; g = st ! 6; h = st ! 7;
          t1 = h + sha256_bsig1 e + sha256_ch e f g + fst kw + snd kw;
          t2 = sha256_bsig0 a + sha256_maj a b c
      in [t1 + t2, a, b, c, d + t1, e, f, g])"

definition sha256_compress :: "32 word list \<Rightarrow> 32 word list \<Rightarrow> 32 word list" where
  "sha256_compress block hs =
     map2 (+) hs (fold sha256_round (zip sha256_K (sha256_schedule 48 block)) hs)"

definition sha256 :: "nat list \<Rightarrow> 32 word list" where
  "sha256 bs = fold sha256_compress (sha256_blocks (sha256_words (sha256_pad bs))) sha256_H0"

definition hex_word :: "32 word \<Rightarrow> string" where
  "hex_word w = map hex_digit (big_endian 8 16 (uint w))"

definition sha256Hex :: "string \<Rightarrow> string" where
  "sha256Hex s = concat (map hex_word (sha256 (utf8 s)))"

section \<open>The ledger\<close>

text \<open>
  A row of \<^verbatim>\<open>ledger_events\<close> (\<^verbatim>\<open>infra/postgres/init.sql\<close>), without \<^verbatim>\<open>created_at\<close>,
  which no statement of the services reads. The field \<open>event_id\<close> is the column
  \<^verbatim>\<open>id\<close>. The table is the list of its rows in the order of their ids, which is the
  order they were inserted in; \<^verbatim>\<open>order by id asc\<close> reads the list, and
  \<^verbatim>\<open>order by id desc limit 1\<close> its last row. The field \<open>payload\<close> is the object a
  \<^verbatim>\<open>select\<close> gives back for the \<^verbatim>\<open>payload\<close> column.
\<close>

record ledger_event =
  event_id :: nat
  event_type :: string
  payload :: jsval
  prev_hash :: string
  event_hash :: string

text \<open>
  What a call ends with when it does not return: an error of the JavaScript engine, an
  error of the database, or \<open>OutsideModel\<close> for an insert whose parameter the model
  does not follow. \<open>EncodingError\<close> is the error the specification names; no statement
  of the services raises it.
\<close>

datatype error =
    TypeError
  | RangeError
  | EncodingError
  | NotNullViolation
  | UniqueViolation
  | CheckViolation
  | ForeignKeyViolation
  | UntranslatableCharacter
  | OutsideModel

text \<open>
  The string the hash is taken of:
  \<^verbatim>\<open>prevHash + "\n" + stableStringify({ event_type: eventType, payload: payloadObj })\<close>.
\<close>

definition canonical :: "string \<Rightarrow> string \<Rightarrow> jsval \<Rightarrow> string" where
  "canonical prevHash eventType payloadObj =
     prevHash @ ''\<newline>'' @
     stableStringify (JObj [(''event_type'', JStr eventType), (''payload'', payloadObj)])"

subsection \<open>The genesis row\<close>

text \<open>
  The \<^verbatim>\<open>DO\<close> block of \<^verbatim>\<open>init.sql\<close>: when the table is empty it inserts the genesis
  row, whose hash is the digest of a string literal.
\<close>

definition genesis_literal :: string where
  "genesis_literal =
     ''{\"event_type\":\"GENESIS\",\"payload\":{\"note\":\"n29 climarisk genesis\"}}''"

definition genesis :: ledger_event where
  "genesis =
     \<lparr>event_id = 1,
      event_type = ''GENESIS'',
      payload = JObj [(''note'', JStr ''n29 climarisk genesis'')],
      prev_hash = ''0'',
      event_hash = sha256Hex (''0'' @ ''\<newline>'' @ genesis_literal)\<rparr>"

definition bootstrap :: "ledger_event list \<Rightarrow> ledger_event list" where
  "bootstrap rows = (if rows = [] then [genesis] else rows)"

subsection \<open>The \<^verbatim>\<open>payload\<close> column\<close>

text \<open>
  The column is \<^verbatim>\<open>JSONB\<close>. The driver sends an object parameter as the text
  \<^verbatim>\<open>JSON.stringify\<close> gives for it, PostgreSQL stores the value it parses from that text,
  and a \<^verbatim>\<open>select\<close> gives back the object \<^verbatim>\<open>JSON.parse\<close> builds from the text of the
  stored value. The object read is not the object written. A property that holds
  \<^verbatim>\<open>undefined\<close> is gone; an \<^verbatim>\<open>undefined\<close> in an array and a number that is not finite
  are \<^verbatim>\<open>null\<close>; a \<^verbatim>\<open>Date\<close> is the string (or the \<^verbatim>\<open>null\<close>) its \<^verbatim>\<open>toJSON\<close> returns; and
  the keys of every object, at every depth, come in another order.

  The column type keeps the keys of an object sorted: a key of fewer bytes first, keys
  of one length in the order of their bytes (\<open>jsonb_order\<close>). \<^verbatim>\<open>JSON.parse\<close> creates the
  properties in that order, and the keys of a JavaScript object are listed with the
  array indices first, in ascending order, and the other keys after them in the order
  of their creation (\<open>parsed_order\<close>; among array indices the order of the column type
  is the ascending order). An array index is the decimal numeral, with no leading
  zero, of an integer below \<open>2\<^sup>3\<^sup>2 - 1\<close>.
\<close>

definition jsonb_key :: "string \<Rightarrow> nat \<times> nat list" where
  "jsonb_key k = (length (utf8 k), utf8 k)"

definition jsonb_order :: "(string \<times> 'a) list \<Rightarrow> (string \<times> 'a) list" where
  "jsonb_order kvs = sort_key (\<lambda>kv. jsonb_key (fst kv)) kvs"

definition array_index :: "string \<Rightarrow> bool" where
  "array_index k \<longleftrightarrow>
     k \<noteq> [] \<and> list_all (\<lambda>c. CHR ''0'' \<le> c \<and> c \<le> CHR ''9'') k \<and>
     (k = ''0'' \<or> hd k \<noteq> CHR ''0'') \<and>
     fold (\<lambda>c n. 10 * n + (of_char c - 48)) k (0 :: int) < 4294967295"

definition parsed_order :: "(string \<times> 'a) list \<Rightarrow> (string \<times> 'a) list" where
  "parsed_order kvs =
     filter (\<lambda>kv. array_index (fst kv)) kvs @ filter (\<lambda>kv. \<not> array_index (fst kv)) kvs"

fun jsonb :: "jsval \<Rightarrow> jsval" where
  "jsonb JUndefined = JNull"
| "jsonb JNull = JNull"
| "jsonb (JBool b) = JBool b"
| "jsonb (JNum n) = (case n of Fin s e \<Rightarrow> JNum (Fin s e) | _ \<Rightarrow> JNull)"
| "jsonb (JStr s) = JStr s"
| "jsonb (JDate t) = (case t of Some s \<Rightarrow> JStr s | None \<Rightarrow> JNull)"
| "jsonb (JArr vs) = JArr (map jsonb vs)"
| "jsonb (JObj kvs) =
     JObj (parsed_order (jsonb_order
             (map (\<lambda>kv. (fst kv, jsonb (snd kv)))
                (filter (\<lambda>kv. snd kv \<noteq> JUndefined) kvs))))"

text \<open>
  The column type has no code point zero: a text with the escape \<^verbatim>\<open>\u0000\<close>, in a
  string or in a key, is refused. \<open>nul_free v\<close> holds when no string and no key of \<open>v\<close>
  has that character.
\<close>

fun nul_free :: "jsval \<Rightarrow> bool" where
  "nul_free (JStr s) = (CHR 0x00 \<notin> set s)"
| "nul_free (JDate t) = (case t of Some s \<Rightarrow> CHR 0x00 \<notin> set s | None \<Rightarrow> True)"
| "nul_free (JArr vs) = list_all nul_free vs"
| "nul_free (JObj kvs) =
     list_all (\<lambda>kv. snd kv = JUndefined \<or> CHR 0x00 \<notin> set (fst kv) \<and> nul_free (snd kv)) kvs"
| "nul_free v = True"

text \<open>
  Two properties of a value tree. \<open>distinct_keys v\<close>: no object of \<open>v\<close> has one key
  twice, as in every JavaScript object. \<open>defined_properties v\<close>: no property of an
  object of \<open>v\<close> holds \<^verbatim>\<open>undefined\<close>.
\<close>

fun distinct_keys :: "jsval \<Rightarrow> bool" where
  "distinct_keys (JArr vs) = list_all distinct_keys vs"
| "distinct_keys (JObj kvs) =
     (distinct (map fst kvs) \<and> list_all (\<lambda>kv. distinct_keys (snd kv)) kvs)"
| "distinct_keys v = True"

fun defined_properties :: "jsval \<Rightarrow> bool" where
  "defined_properties (JArr vs) = list_all defined_properties vs"
| "defined_properties (JObj kvs) =
     list_all (\<lambda>kv. snd kv \<noteq> JUndefined \<and> defined_properties (snd kv)) kvs"
| "defined_properties v = True"

subsection \<open>\<^verbatim>\<open>appendLedgerEvent\<close>\<close>

text \<open>
  The \<^verbatim>\<open>insert\<close> statement, with the constraints of the table: \<^verbatim>\<open>payload\<close> is
  \<^verbatim>\<open>NOT NULL\<close> (a parameter that is \<^verbatim>\<open>null\<close> or \<^verbatim>\<open>undefined\<close> is sent as SQL
  \<^verbatim>\<open>NULL\<close>), \<^verbatim>\<open>event_hash\<close> is \<^verbatim>\<open>UNIQUE\<close>, and \<^verbatim>\<open>id\<close> is the next value of the
  sequence. The row that is stored holds the payload as the column gives it back,
  \<open>jsonb payloadObj\<close>. A statement that fails leaves the table as it was.

  Every call of the services passes an object as \<^verbatim>\<open>payloadObj\<close>. A parameter that is
  neither an object nor \<^verbatim>\<open>null\<close> nor \<^verbatim>\<open>undefined\<close> reaches the column in a text form
  of the driver's own (a string as it is, an array as a PostgreSQL array literal),
  which the model does not follow: the result is \<open>OutsideModel\<close>, and no theorem says
  what such an insert does.
\<close>

definition next_id :: "ledger_event list \<Rightarrow> nat" where
  "next_id rows = (if rows = [] then 1 else Suc (event_id (last rows)))"

definition insert_ledger_event ::
  "ledger_event list \<Rightarrow> string \<Rightarrow> jsval \<Rightarrow> string \<Rightarrow> string \<Rightarrow> error + ledger_event list" where
  "insert_ledger_event rows eventType payloadObj prevHash eventHash =
     (case payloadObj of
        JNull \<Rightarrow> Inl NotNullViolation
      | JUndefined \<Rightarrow> Inl NotNullViolation
      | JObj kvs \<Rightarrow>
          if \<not> nul_free payloadObj then Inl UntranslatableCharacter
          else if eventHash \<in> set (map event_hash rows) then Inl UniqueViolation
          else Inr (rows @
            [\<lparr>event_id = next_id rows, event_type = eventType, payload = jsonb payloadObj,
              prev_hash = prevHash, event_hash = eventHash\<rparr>])
      | _ \<Rightarrow> Inl OutsideModel)"

record append_result =
  prevHash :: string
  eventHash :: string

text \<open>
  \<^verbatim>\<open>appendLedgerEvent\<close> of \<^verbatim>\<open>services/api/src/index.js\<close>. On an empty table
  \<^verbatim>\<open>last.rows[0]\<close> is \<^verbatim>\<open>undefined\<close> and reading its \<^verbatim>\<open>event_hash\<close> throws a
  \<^verbatim>\<open>TypeError\<close>. The result is the value returned and the table after the call.
\<close>

definition appendLedgerEvent ::
  "ledger_event list \<Rightarrow> string \<Rightarrow> jsval \<Rightarrow> error + (append_result \<times> ledger_event list)" where
  "appendLedgerEvent rows eventType payloadObj =
     (case rows of
        [] \<Rightarrow> Inl TypeError
      | _ # _ \<Rightarrow>
          (let prevHash = event_hash (last rows);
               eventHash = sha256Hex (canonical prevHash eventType payloadObj)
           in case insert_ledger_event rows eventType payloadObj prevHash eventHash of
                Inl e \<Rightarrow> Inl e
              | Inr rows' \<Rightarrow> Inr (\<lparr>prevHash = prevHash, eventHash = eventHash\<rparr>, rows')))"

text \<open>
  The copy in \<^verbatim>\<open>services/worker/src/worker.js\<close> has the same body and returns
  \<^verbatim>\<open>{ eventHash }\<close> only.
\<close>

definition appendLedgerEvent_worker ::
  "ledger_event list \<Rightarrow> string \<Rightarrow> jsval \<Rightarrow> error + (string \<times> ledger_event list)" where
  "appendLedgerEvent_worker rows eventType payloadObj =
     (case appendLedgerEvent rows eventType payloadObj of
        Inl e \<Rightarrow> Inl e
      | Inr (r, rows') \<Rightarrow> Inr (eventHash r, rows'))"

text \<open>Appends one after the other; the first that throws ends the run.\<close>

fun append_all :: "ledger_event list \<Rightarrow> (string \<times> jsval) list \<Rightarrow> error + ledger_event list" where
  "append_all rows [] = Inr rows"
| "append_all rows ((eventType, payloadObj) # evs) =
     (case appendLedgerEvent rows eventType payloadObj of
        Inl e \<Rightarrow> Inl e
      | Inr (r, rows') \<Rightarrow> append_all rows' evs)"

subsection \<open>The audit: \<^verbatim>\<open>GET /api/read/audit/verify\<close>\<close>

datatype audit_error =
    hash_mismatch string string string
  | genesis_prev_hash_not_zero string string
  | prev_hash_link_broken string string string

text \<open>
  The constructors carry the fields of the error objects in the order the source
  writes them: \<^verbatim>\<open>id\<close> (\<^verbatim>\<open>String(e.id)\<close>), then \<^verbatim>\<open>expected\<close> and \<^verbatim>\<open>got\<close>, or
  \<^verbatim>\<open>prev_hash\<close>, or \<^verbatim>\<open>prev_hash\<close> and \<^verbatim>\<open>should_be\<close>.
\<close>

record audit_result =
  ok :: bool
  count :: nat
  errors :: "audit_error list"

definition computed_hash :: "ledger_event \<Rightarrow> string" where
  "computed_hash e = sha256Hex (canonical (prev_hash e) (event_type e) (payload e))"

definition String_id :: "ledger_event \<Rightarrow> string" where
  "String_id e = decimal (int (event_id e))"

text \<open>The body of the \<^verbatim>\<open>for\<close> loop, on the variables \<^verbatim>\<open>ok\<close> and \<^verbatim>\<open>errors\<close>.\<close>

definition verify_step ::
  "ledger_event list \<Rightarrow> nat \<Rightarrow> bool \<times> audit_error list \<Rightarrow> bool \<times> audit_error list" where
  "verify_step rows i st =
     (let e = rows ! i;
          computed = computed_hash e;
          st1 = (if computed \<noteq> event_hash e
                 then (False, snd st @ [hash_mismatch (String_id e) (event_hash e) computed])
                 else st)
      in if i = 0 then
           (if prev_hash e \<noteq> ''0''
            then (False, snd st1 @ [genesis_prev_hash_not_zero (String_id e) (prev_hash e)])
            else st1)
         else
           (let prev = rows ! (i - 1)
            in if prev_hash e \<noteq> event_hash prev
               then (False, snd st1 @
                      [prev_hash_link_broken (String_id e) (prev_hash e) (event_hash prev)])
               else st1))"

definition verify :: "ledger_event list \<Rightarrow> audit_result" where
  "verify rows =
     (let st = fold (verify_step rows) [0..<length rows] (True, [])
      in \<lparr>ok = fst st, count = length rows, errors = snd st\<rparr>)"

subsection \<open>Changing a stored row\<close>

text \<open>
  A change of the stored \<^verbatim>\<open>payload\<close> or of the stored \<^verbatim>\<open>event_hash\<close> of the row at
  index \<open>i\<close> of the table, as an \<^verbatim>\<open>UPDATE\<close> on the database would make it.
\<close>

definition set_payload :: "ledger_event list \<Rightarrow> nat \<Rightarrow> jsval \<Rightarrow> ledger_event list" where
  "set_payload rows i p = rows[i := (rows ! i)\<lparr>payload := p\<rparr>]"

definition set_event_hash :: "ledger_event list \<Rightarrow> nat \<Rightarrow> string \<Rightarrow> ledger_event list" where
  "set_event_hash rows i h = rows[i := (rows ! i)\<lparr>event_hash := h\<rparr>]"

text \<open>The \<^verbatim>\<open>hash_mismatch\<close> entry the audit writes for a row.\<close>

definition mismatch_of :: "ledger_event \<Rightarrow> audit_error" where
  "mismatch_of e = hash_mismatch (String_id e) (event_hash e) (computed_hash e)"

subsection \<open>Small ledgers\<close>

text \<open>
  The ledger after the bootstrap and one \<^verbatim>\<open>CMD_LOCATION_REFRESH\<close>, with the two digests
  written out.
\<close>

definition refresh_payload :: jsval where
  "refresh_payload = JObj [(''locationId'', JStr ''x'')]"

definition genesis_digest :: string where
  "genesis_digest = ''4245ee03c08bf4d495f4e6fa5827a672bb21443be6d1aebf135a047411acaed6''"

definition refresh_digest :: string where
  "refresh_digest = ''79e521cf7685774216ddadc68de73e3110f66c863fc7053d0633f055e3510cac''"

definition refresh_ledger :: "ledger_event list" where
  "refresh_ledger =
     [genesis,
      \<lparr>event_id = 2, event_type = ''CMD_LOCATION_REFRESH'', payload = refresh_payload,
       prev_hash = genesis_digest, event_hash = refresh_digest\<rparr>]"

text \<open>
  The ledger after the bootstrap and one \<^verbatim>\<open>CMD_LOCATION_ADD\<close>. Its payload
  \<^verbatim>\<open>{ location: loc }\<close> holds the row the \<^verbatim>\<open>insert\<close> into \<^verbatim>\<open>locations\<close> returned, with
  its keys in the order of the columns; the \<^verbatim>\<open>payload\<close> column gives that object back
  with the keys of \<^verbatim>\<open>loc\<close> in another order, which is \<open>add_stored\<close>.
\<close>

definition add_payload :: jsval where
  "add_payload =
     JObj [(''location'',
            JObj [(''id'', JStr ''y''), (''name'', JStr ''x''), (''lat'', JNum (Fin 1 0))])]"

definition add_stored :: jsval where
  "add_stored =
     JObj [(''location'',
            JObj [(''id'', JStr ''y''), (''lat'', JNum (Fin 1 0)), (''name'', JStr ''x'')])]"

definition add_digest :: string where
  "add_digest = ''e4e2ec768a08b34fd439c54084c5db19003705e81fa97926cc61dcf1d99d0842''"

definition add_ledger :: "ledger_event list" where
  "add_ledger =
     [genesis,
      \<lparr>event_id = 2, event_type = ''CMD_LOCATION_ADD'', payload = add_stored,
       prev_hash = genesis_digest, event_hash = add_digest\<rparr>]"

text \<open>
  The ledger after the bootstrap and one \<^verbatim>\<open>CMD_LOCATION_REFRESH\<close> whose payload
  \<^verbatim>\<open>{ locationId: id }\<close> holds \<^verbatim>\<open>undefined\<close>. The append hashes the encoding
  \<^verbatim>\<open>{"locationId":null}\<close> of the payload, which gives \<open>undefined_digest\<close>, and the column
  stores and gives back the object \<^verbatim>\<open>{}\<close>, whose hash is \<open>empty_digest\<close>.
\<close>

definition undefined_payload :: jsval where
  "undefined_payload = JObj [(''locationId'', JUndefined)]"

definition undefined_digest :: string where
  "undefined_digest = ''c1d2ca2ad853ea56ae02a500ef7cca3d0e10ab7f23abbb4836d2266fe89216dc''"

definition empty_digest :: string where
  "empty_digest = ''1212eb27fa93258cf58cb865a5bba62f96ddfe0184dcffdb89443ebc580c3c35''"

definition undefined_ledger :: "ledger_event list" where
  "undefined_ledger =
     [genesis,
      \<lparr>event_id = 2, event_type = ''CMD_LOCATION_REFRESH'', payload = JObj [],
       prev_hash = genesis_digest, event_hash = undefined_digest\<rparr>]"

text \<open>
  A ledger whose second row records a decision made without a temperature: its payload
  holds \<^verbatim>\<open>null\<close> where a reading would stand. \<open>decision_payload t\<close> is that payload with
  \<open>t\<close> in the place of the temperature.
\<close>

definition decision_payload :: "jsval \<Rightarrow> jsval" where
  "decision_payload t = JObj [(''decision'', JStr ''ALERT''), (''tempC'', t)]"

definition decision_ledger :: "ledger_event list" where
  "decision_ledger =
     [genesis,
      \<lparr>event_id = 2, event_type = ''DECISION_WEATHER_RISK'', payload = decision_payload JNull,
       prev_hash = event_hash genesis,
       event_hash =
         sha256Hex (canonical (event_hash genesis) ''DECISION_WEATHER_RISK'' (decision_payload JNull))\<rparr>]"

section \<open>The decision rules\<close>

text \<open>
  A reading is a number or \<^verbatim>\<open>null\<close>: what the worker passes for \<^verbatim>\<open>tempC\<close>,
  \<^verbatim>\<open>windMs\<close> and \<^verbatim>\<open>rain1hMm\<close> when the sensor's JSON holds numbers. In a comparison
  with a number \<^verbatim>\<open>null\<close> converts to \<open>+0\<close>, every comparison with \<^verbatim>\<open>NaN\<close> is false, and a
  finite \<open>Fin s e\<close> compares by its value \<open>s * 10 ^ e\<close>: the double that decimal
  denotes is on the same side of an integer threshold as the decimal.
\<close>

datatype reading = RNull | RNum jsnumber

definition ToNumber :: "reading \<Rightarrow> jsnumber" where
  "ToNumber x = (case x of RNull \<Rightarrow> Fin 0 0 | RNum n \<Rightarrow> n)"

definition fin_ge :: "int \<Rightarrow> int \<Rightarrow> int \<Rightarrow> bool" where
  "fin_ge s e c = (if 0 \<le> e then c \<le> s * 10 ^ nat e else c * 10 ^ nat (- e) \<le> s)"

definition fin_le :: "int \<Rightarrow> int \<Rightarrow> int \<Rightarrow> bool" where
  "fin_le s e c = (if 0 \<le> e then s * 10 ^ nat e \<le> c else s \<le> c * 10 ^ nat (- e))"

text \<open>\<^verbatim>\<open>x >= c\<close> and \<^verbatim>\<open>x <= c\<close> for an integer literal \<open>c\<close>.\<close>

definition js_ge :: "reading \<Rightarrow> int \<Rightarrow> bool" where
  "js_ge x c =
     (case ToNumber x of Fin s e \<Rightarrow> fin_ge s e c | NaN \<Rightarrow> False | PosInf \<Rightarrow> True | NegInf \<Rightarrow> False)"

definition js_le :: "reading \<Rightarrow> int \<Rightarrow> bool" where
  "js_le x c =
     (case ToNumber x of Fin s e \<Rightarrow> fin_le s e c | NaN \<Rightarrow> False | PosInf \<Rightarrow> False | NegInf \<Rightarrow> True)"

text \<open>A rule descriptor; \<open>rule_id\<close> is its field \<^verbatim>\<open>id\<close>.\<close>

record rule =
  rule_id :: string
  severity :: string
  why :: string

definition RAIN_20MM_1H :: rule where
  "RAIN_20MM_1H = \<lparr>rule_id = ''RAIN_20MM_1H'', severity = ''CRITICAL'', why = ''rain_1h_mm>=20''\<rparr>"

definition RAIN_8MM_1H :: rule where
  "RAIN_8MM_1H = \<lparr>rule_id = ''RAIN_8MM_1H'', severity = ''ALERT'', why = ''rain_1h_mm>=8''\<rparr>"

definition WIND_20MS :: rule where
  "WIND_20MS = \<lparr>rule_id = ''WIND_20MS'', severity = ''CRITICAL'', why = ''wind_ms>=20''\<rparr>"

definition WIND_12MS :: rule where
  "WIND_12MS = \<lparr>rule_id = ''WIND_12MS'', severity = ''ALERT'', why = ''wind_ms>=12''\<rparr>"

definition TEMP_38C :: rule where
  "TEMP_38C = \<lparr>rule_id = ''TEMP_38C'', severity = ''CRITICAL'', why = ''temp_c>=38''\<rparr>"

definition TEMP_33C :: rule where
  "TEMP_33C = \<lparr>rule_id = ''TEMP_33C'', severity = ''ALERT'', why = ''temp_c>=33''\<rparr>"

definition TEMP_m3C :: rule where
  "TEMP_m3C = \<lparr>rule_id = ''TEMP_-3C'', severity = ''CRITICAL'', why = ''temp_c<=-3''\<rparr>"

definition TEMP_2C :: rule where
  "TEMP_2C = \<lparr>rule_id = ''TEMP_2C'', severity = ''ALERT'', why = ''temp_c<=2''\<rparr>"

text \<open>
  \<^verbatim>\<open>Array.prototype.sort\<close> with a comparator: a stable sort, written as insertion
  sort. The comparator of the source is \<^verbatim>\<open>localeCompare\<close>, whose order is that of the
  runtime's locale; it is the parameter \<open>localeCompare\<close> of \<open>decideRisk\<close>.
\<close>

fun insert_by :: "('a \<Rightarrow> 'a \<Rightarrow> int) \<Rightarrow> 'a \<Rightarrow> 'a list \<Rightarrow> 'a list" where
  "insert_by cmp x [] = [x]"
| "insert_by cmp x (y # ys) = (if cmp x y \<le> 0 then x # y # ys else y # insert_by cmp x ys)"

definition Array_sort :: "('a \<Rightarrow> 'a \<Rightarrow> int) \<Rightarrow> 'a list \<Rightarrow> 'a list" where
  "Array_sort cmp xs = foldr (insert_by cmp) xs []"

record inputs =
  tempC :: reading
  windMs :: reading
  rain1hMm :: reading

record applied_rule =
  version :: nat
  inputs :: inputs
  rules :: "rule list"

record decision_pack =
  decision :: string
  applied_rule :: applied_rule

text \<open>
  \<^verbatim>\<open>decideRisk\<close> of \<^verbatim>\<open>services/worker/src/worker.js\<close>. Its argument is the object
  \<^verbatim>\<open>{ tempC, windMs, rain1hMm }\<close>. \<open>pushed_rules\<close> is the array \<^verbatim>\<open>rules\<close> when the four
  \<^verbatim>\<open>if\<close> statements have run (\<open>rules1\<close> to \<open>rules4\<close> are the array after each of
  them), in the order of the pushes; \<open>decideRisk\<close> goes on from there.
\<close>

definition pushed_rules :: "inputs \<Rightarrow> rule list" where
  "pushed_rules inp =
     (let rules1 =
            (if js_ge (rain1hMm inp) 20 then [RAIN_20MM_1H]
             else if js_ge (rain1hMm inp) 8 then [RAIN_8MM_1H]
             else []);
          rules2 =
            (if js_ge (windMs inp) 20 then rules1 @ [WIND_20MS]
             else if js_ge (windMs inp) 12 then rules1 @ [WIND_12MS]
             else rules1);
          rules3 =
            (if js_ge (tempC inp) 38 then rules2 @ [TEMP_38C]
             else if js_ge (tempC inp) 33 then rules2 @ [TEMP_33C]
             else rules2);
          rules4 =
            (if js_le (tempC inp) (- 3) then rules3 @ [TEMP_m3C]
             else if js_le (tempC inp) 2 then rules3 @ [TEMP_2C]
             else rules3)
      in rules4)"

definition decideRisk :: "(string \<Rightarrow> string \<Rightarrow> int) \<Rightarrow> inputs \<Rightarrow> decision_pack" where
  "decideRisk localeCompare inp =
     (let rules = pushed_rules inp;
          decision =
            (if list_ex (\<lambda>r. severity r = ''CRITICAL'') rules then ''CRITICAL''
             else if list_ex (\<lambda>r. severity r = ''ALERT'') rules then ''ALERT''
             else ''NORMAL'')
      in \<lparr>decision = decision,
          applied_rule =
            \<lparr>version = 1,
             inputs = inp,
             rules = Array_sort (\<lambda>a b. localeCompare (rule_id a) (rule_id b)) rules\<rparr>\<rparr>)"

text \<open>
  A comparator to run \<open>decideRisk\<close> with: the comparison of the code units, which is
  what \<^verbatim>\<open>localeCompare\<close> is in a runtime without locale data.
\<close>

definition codeunit_compare :: "string \<Rightarrow> string \<Rightarrow> int" where
  "codeunit_compare a b = (if a < b then - 1 else if a = b then 0 else 1)"

text \<open>
  What the theorems ask of the locale: of two rule ids that start with different
  letters, the one whose first letter comes first in the alphabet sorts first.
\<close>

definition all_rule_ids :: "string list" where
  "all_rule_ids =
     [''RAIN_20MM_1H'', ''RAIN_8MM_1H'', ''WIND_20MS'', ''WIND_12MS'',
      ''TEMP_38C'', ''TEMP_33C'', ''TEMP_-3C'', ''TEMP_2C'']"

definition alphabetical :: "(string \<Rightarrow> string \<Rightarrow> int) \<Rightarrow> bool" where
  "alphabetical localeCompare =
     list_all (\<lambda>a. list_all (\<lambda>b. hd a < hd b \<longrightarrow> localeCompare a b < 0 \<and> 0 < localeCompare b a)
        all_rule_ids) all_rule_ids"

subsection \<open>The worker's reading of the sensor's answer\<close>

text \<open>
  \<^verbatim>\<open>v?.k\<close> for the keys the worker reads (\<^verbatim>\<open>main\<close>, \<^verbatim>\<open>temp\<close>, \<^verbatim>\<open>wind\<close>, \<^verbatim>\<open>speed\<close>,
  \<^verbatim>\<open>rain\<close>, \<^verbatim>\<open>1h\<close>): none of them is a property of a number, a boolean, a string,
  an array or a \<^verbatim>\<open>Date\<close>. \<^verbatim>\<open>a ?? b\<close> is \<open>nullish a b\<close>.
\<close>

definition optional_member :: "jsval \<Rightarrow> string \<Rightarrow> jsval" where
  "optional_member v k = (case v of JObj kvs \<Rightarrow> get_prop kvs k | _ \<Rightarrow> JUndefined)"

definition nullish :: "jsval \<Rightarrow> jsval \<Rightarrow> jsval" where
  "nullish a b = (if a = JNull \<or> a = JUndefined then b else a)"

record sensor_values =
  sensor_tempC :: jsval
  sensor_windMs :: jsval
  sensor_rain1hMm :: jsval

text \<open>The three \<^verbatim>\<open>const\<close> lines of the job handler, before the call of \<^verbatim>\<open>decideRisk\<close>.\<close>

definition sensor_readings :: "jsval \<Rightarrow> sensor_values" where
  "sensor_readings raw =
     \<lparr>sensor_tempC = nullish (optional_member (optional_member raw ''main'') ''temp'') JNull,
      sensor_windMs = nullish (optional_member (optional_member raw ''wind'') ''speed'') (JNum (Fin 0 0)),
      sensor_rain1hMm = nullish (optional_member (optional_member raw ''rain'') ''1h'') (JNum (Fin 0 0))\<rparr>"

text \<open>
  The call \<^verbatim>\<open>decideRisk({ tempC, windMs, rain1hMm })\<close> of the handler. A value that is
  neither a number nor \<^verbatim>\<open>null\<close> is no reading, and the call is then outside this model.
\<close>

definition reading_of :: "jsval \<Rightarrow> reading option" where
  "reading_of v = (case v of JNull \<Rightarrow> Some RNull | JNum n \<Rightarrow> Some (RNum n) | _ \<Rightarrow> None)"

definition handler_decide :: "(string \<Rightarrow> string \<Rightarrow> int) \<Rightarrow> jsval \<Rightarrow> decision_pack option" where
  "handler_decide localeCompare raw =
     (let s = sensor_readings raw
      in case (reading_of (sensor_tempC s), reading_of (sensor_windMs s), reading_of (sensor_rain1hMm s)) of
           (Some t, Some w, Some r) \<Rightarrow>
             Some (decideRisk localeCompare \<lparr>tempC = t, windMs = w, rain1hMm = r\<rparr>)
         | _ \<Rightarrow> None)"

text \<open>The set of the rules in the list \<^verbatim>\<open>rules\<close> of the result.\<close>

definition matched :: "(string \<Rightarrow> string \<Rightarrow> int) \<Rightarrow> inputs \<Rightarrow> rule set" where
  "matched localeCompare inp = set (rules (applied_rule (decideRisk localeCompare inp)))"

section \<open>The projections\<close>

text \<open>
  The tables \<^verbatim>\<open>location_state\<close> and \<^verbatim>\<open>weather_snapshots\<close> of \<^verbatim>\<open>init.sql\<close>. A
  timestamp is a number. \<^verbatim>\<open>location_state\<close> has the primary key \<^verbatim>\<open>location_id\<close>: it
  is a map from the key to the row. \<^verbatim>\<open>weather_snapshots\<close> has a serial \<^verbatim>\<open>id\<close> and no
  other key: it is the list of its rows. Both reference \<^verbatim>\<open>locations(id)\<close>, both check
  \<^verbatim>\<open>decision\<close>, and their JSON columns are \<^verbatim>\<open>NOT NULL\<close>. The fields of the rows carry
  the prefix of their table, the fields of the argument of \<^verbatim>\<open>applyProjections\<close> the
  prefix \<open>arg\<close>.
\<close>

record location_state_row =
  ls_location_id :: string
  ls_updated_at :: nat
  ls_decision :: string
  ls_applied_rule :: applied_rule
  ls_raw_weather :: jsval
  ls_ledger_hash :: string

record weather_snapshot_row =
  ws_id :: nat
  ws_location_id :: string
  ws_created_at :: nat
  ws_decision :: string
  ws_applied_rule :: applied_rule
  ws_raw_weather :: jsval
  ws_ledger_hash :: string

record projection_db =
  locations :: "string list"
  location_state :: "string \<rightharpoonup> location_state_row"
  weather_snapshots :: "weather_snapshot_row list"

record projection_args =
  arg_locationId :: string
  arg_decision :: string
  arg_applied_rule :: applied_rule
  arg_raw_weather :: jsval
  arg_ledger_hash :: string

text \<open>The constraints the two inserts share; \<open>None\<close> when the row is accepted.\<close>

definition projection_violation :: "projection_db \<Rightarrow> projection_args \<Rightarrow> error option" where
  "projection_violation db a =
     (if arg_raw_weather a = JNull \<or> arg_raw_weather a = JUndefined then Some NotNullViolation
      else if arg_decision a \<notin> {''NORMAL'', ''ALERT'', ''CRITICAL''} then Some CheckViolation
      else if arg_locationId a \<notin> set (locations db) then Some ForeignKeyViolation
      else None)"

text \<open>
  The first statement: \<^verbatim>\<open>insert into location_state ... on conflict (location_id) do
  update\<close>. With or without a conflict the row of the location is the new one, with
  \<^verbatim>\<open>updated_at = now()\<close>.
\<close>

definition upsert_location_state ::
  "nat \<Rightarrow> projection_db \<Rightarrow> projection_args \<Rightarrow> error + projection_db" where
  "upsert_location_state now db a =
     (case projection_violation db a of
        Some e \<Rightarrow> Inl e
      | None \<Rightarrow>
          Inr (db\<lparr>location_state := (location_state db)(arg_locationId a \<mapsto>
                 \<lparr>ls_location_id = arg_locationId a, ls_updated_at = now,
                  ls_decision = arg_decision a, ls_applied_rule = arg_applied_rule a,
                  ls_raw_weather = arg_raw_weather a, ls_ledger_hash = arg_ledger_hash a\<rparr>)\<rparr>))"

text \<open>
  The second statement: a plain \<^verbatim>\<open>insert into weather_snapshots\<close>; \<^verbatim>\<open>id\<close> and
  \<^verbatim>\<open>created_at\<close> take their defaults.
\<close>

definition next_snapshot_id :: "weather_snapshot_row list \<Rightarrow> nat" where
  "next_snapshot_id rows = (if rows = [] then 1 else Suc (ws_id (last rows)))"

definition insert_weather_snapshot ::
  "nat \<Rightarrow> projection_db \<Rightarrow> projection_args \<Rightarrow> error + projection_db" where
  "insert_weather_snapshot now db a =
     (case projection_violation db a of
        Some e \<Rightarrow> Inl e
      | None \<Rightarrow>
          Inr (db\<lparr>weather_snapshots := weather_snapshots db @
                 [\<lparr>ws_id = next_snapshot_id (weather_snapshots db),
                   ws_location_id = arg_locationId a, ws_created_at = now,
                   ws_decision = arg_decision a, ws_applied_rule = arg_applied_rule a,
                   ws_raw_weather = arg_raw_weather a, ws_ledger_hash = arg_ledger_hash a\<rparr>]\<rparr>))"

text \<open>
  \<^verbatim>\<open>applyProjections\<close> of \<^verbatim>\<open>services/worker/src/worker.js\<close>: the two statements, each
  with the time of its own \<^verbatim>\<open>now()\<close>. The second runs when the first has not thrown.
\<close>

definition applyProjections ::
  "nat \<Rightarrow> nat \<Rightarrow> projection_db \<Rightarrow> projection_args \<Rightarrow> error + projection_db" where
  "applyProjections now1 now2 db a =
     (case upsert_location_state now1 db a of
        Inl e \<Rightarrow> Inl e
      | Inr db1 \<Rightarrow> insert_weather_snapshot now2 db1 a)"

text \<open>The rows of the history that a ledger event produced.\<close>

definition snapshots_of :: "projection_db \<Rightarrow> string \<Rightarrow> weather_snapshot_row list" where
  "snapshots_of db h = filter (\<lambda>r. ws_ledger_hash r = h) (weather_snapshots db)"

text \<open>A database with one location and empty projections, and one decision to apply.\<close>

definition one_location :: projection_db where
  "one_location = \<lparr>locations = [''loc-1''], location_state = Map.empty, weather_snapshots = []\<rparr>"

definition one_decision :: projection_args where
  "one_decision =
     \<lparr>arg_locationId = ''loc-1'',
      arg_decision = ''ALERT'',
      arg_applied_rule =
        \<lparr>version = 1,
         inputs = \<lparr>tempC = RNull, windMs = RNum (Fin 3 0), rain1hMm = RNum (Fin 0 0)\<rparr>,
         rules = [TEMP_2C]\<rparr>,
      arg_raw_weather = JObj [(''wind'', JObj [(''speed'', JNum (Fin 3 0))])],
      arg_ledger_hash = refresh_digest\<rparr>"

section \<open>Values that share or contain themselves\<close>

text \<open>
  A \<open>jsval\<close> is a finite tree. A JavaScript array or object is a reference into the
  heap, and an object can hold a reference to itself. For such values the heap is
  explicit: a value is a primitive or the address of an array, an object or a
  \<^verbatim>\<open>Date\<close>, and the heap gives what is at an address.
\<close>

datatype hval = HUndefined | HNull | HBool bool | HNum jsnumber | HStr string | HRef nat

datatype hobj = HArr "hval list" | HObj "(string \<times> hval) list" | HDate "string option"

type_synonym heap = "nat \<Rightarrow> hobj"

definition get_hprop :: "(string \<times> hval) list \<Rightarrow> string \<Rightarrow> hval" where
  "get_hprop kvs k = (case map_of kvs k of Some v \<Rightarrow> v | None \<Rightarrow> HUndefined)"

text \<open>The results of the calls on the elements, in order: the first that throws ends the \<^verbatim>\<open>map\<close>.\<close>

fun collect :: "(error + 'a) list \<Rightarrow> error + 'a list" where
  "collect [] = Inr []"
| "collect (Inl e # rs) = Inl e"
| "collect (Inr x # rs) = (case collect rs of Inl e \<Rightarrow> Inl e | Inr xs \<Rightarrow> Inr (x # xs))"

text \<open>
  \<^verbatim>\<open>stableStringify\<close> on the heap. The source has no test for a value it is already
  encoding: it calls itself on every element and property. Every call takes a frame
  of the engine's call stack, and the stack is finite: the first argument is the number
  of nested calls the stack still has room for, and a call with no room left throws the
  engine's \<^verbatim>\<open>RangeError\<close> (maximum call stack size exceeded).
\<close>

fun stableStringify_heap :: "nat \<Rightarrow> heap \<Rightarrow> hval \<Rightarrow> error + string" where
  "stableStringify_heap 0 h v = Inl RangeError"
| "stableStringify_heap (Suc d) h HNull = Inr ''null''"
| "stableStringify_heap (Suc d) h HUndefined = Inr ''null''"
| "stableStringify_heap (Suc d) h (HNum n) =
     Inr (case n of Fin s e \<Rightarrow> number_to_string s e | _ \<Rightarrow> ''null'')"
| "stableStringify_heap (Suc d) h (HBool b) = Inr (if b then ''true'' else ''false'')"
| "stableStringify_heap (Suc d) h (HStr s) = Inr (JSON_stringify_string s)"
| "stableStringify_heap (Suc d) h (HRef a) =
     (case h a of
        HArr vs \<Rightarrow>
          (case collect (map (stableStringify_heap d h) vs) of
             Inl e \<Rightarrow> Inl e
           | Inr ss \<Rightarrow> Inr (''['' @ join '','' ss @ '']''))
      | HDate t \<Rightarrow>
          stableStringify_heap d h (case t of Some s \<Rightarrow> HStr s | None \<Rightarrow> HNull)
      | HObj kvs \<Rightarrow>
          (let keys = sort (map fst kvs)
           in case collect (map (\<lambda>k. case stableStringify_heap d h (get_hprop kvs k) of
                                        Inl e \<Rightarrow> Inl e
                                      | Inr s \<Rightarrow> Inr (JSON_stringify_string k @ '':'' @ s)) keys) of
                Inl e \<Rightarrow> Inl e
              | Inr ss \<Rightarrow> Inr (''{'' @ join '','' ss @ ''}'')))"

text \<open>
  The values the encoder calls itself on, for the array or object at an address, and
  the addresses among them.
\<close>

definition visited :: "heap \<Rightarrow> nat \<Rightarrow> hval set" where
  "visited h a =
     (case h a of
        HArr vs \<Rightarrow> set vs
      | HObj kvs \<Rightarrow> get_hprop kvs ` set (map fst kvs)
      | HDate t \<Rightarrow> {})"

definition edges :: "heap \<Rightarrow> (nat \<times> nat) set" where
  "edges h = {(a, b). HRef b \<in> visited h a}"

text \<open>
  A value that contains a reference to itself: from its address the encoder reaches an
  address that is reached from itself. The value is the object on the cycle, or an
  array or object that holds it at whatever depth.
\<close>

definition cyclic :: "heap \<Rightarrow> hval \<Rightarrow> bool" where
  "cyclic h v = (\<exists>a c. v = HRef a \<and> (a, c) \<in> (edges h)\<^sup>* \<and> (c, c) \<in> (edges h)\<^sup>+)"

text \<open>
  The heap after \<^verbatim>\<open>const o = { name: "x" }; o.self = o\<close>, with \<^verbatim>\<open>o\<close> at address 0; the
  heap in which \<^verbatim>\<open>appendLedgerEvent\<close> has built \<^verbatim>\<open>{ event_type: "E", payload: o }\<close> at
  address 0 for that \<^verbatim>\<open>o\<close> at address 1; and the tree \<^verbatim>\<open>{ name: "x", list: [1] }\<close>
  with its array at address 1.
\<close>

definition self_heap :: heap where
  "self_heap = (\<lambda>a. HObj [(''name'', HStr ''x''), (''self'', HRef 0)])"

definition wrapped_heap :: heap where
  "wrapped_heap = (\<lambda>a. if a = 0 then HObj [(''event_type'', HStr ''E''), (''payload'', HRef 1)]
                        else HObj [(''name'', HStr ''x''), (''self'', HRef 1)])"

definition tree_heap :: heap where
  "tree_heap = (\<lambda>a. if a = 0 then HObj [(''name'', HStr ''x''), (''list'', HRef 1)]
                     else HArr [HNum (Fin 1 0)])"

text \<open>
  A heap value that is a tree: \<open>represents h hv v\<close> when following the addresses
  from \<open>hv\<close> in the heap \<open>h\<close> spells out the tree \<open>v\<close>.
\<close>

inductive represents :: "heap \<Rightarrow> hval \<Rightarrow> jsval \<Rightarrow> bool" for h :: heap where
  rep_undefined: "represents h HUndefined JUndefined"
| rep_null: "represents h HNull JNull"
| rep_bool: "represents h (HBool b) (JBool b)"
| rep_num: "represents h (HNum n) (JNum n)"
| rep_str: "represents h (HStr s) (JStr s)"
| rep_date: "h a = HDate t \<Longrightarrow> represents h (HRef a) (JDate t)"
| rep_arr: "h a = HArr hvs \<Longrightarrow> list_all2 (represents h) hvs vs \<Longrightarrow>
     represents h (HRef a) (JArr vs)"
| rep_obj: "h a = HObj hkvs \<Longrightarrow> map fst hkvs = map fst kvs \<Longrightarrow>
     list_all2 (represents h) (map snd hkvs) (map snd kvs) \<Longrightarrow>
     represents h (HRef a) (JObj kvs)"

section \<open>Appends that run at the same time\<close>

text \<open>
  A call of \<^verbatim>\<open>appendLedgerEvent\<close> awaits two statements: the \<^verbatim>\<open>select\<close> of the last
  hash and the \<^verbatim>\<open>insert\<close>. Neither service wraps them in a transaction or a lock, and
  the API and the worker are two processes on one database, so the statements of
  other calls can run between them. A call is at one of four points: not started,
  holding the \<^verbatim>\<open>prevHash\<close> it read and about to insert, returned with its
  \<^verbatim>\<open>eventHash\<close>, or ended by an exception.
\<close>

datatype phase = NotStarted | AwaitingInsert string | Returned string | Thrown error

record append_call =
  call_eventType :: string
  call_payload :: jsval
  call_phase :: phase

text \<open>The next statement of a call, on the table as it is then.\<close>

definition call_step :: "ledger_event list \<Rightarrow> append_call \<Rightarrow> ledger_event list \<times> append_call" where
  "call_step rows c =
     (case call_phase c of
        NotStarted \<Rightarrow>
          (case rows of
             [] \<Rightarrow> (rows, c\<lparr>call_phase := Thrown TypeError\<rparr>)
           | _ # _ \<Rightarrow> (rows, c\<lparr>call_phase := AwaitingInsert (event_hash (last rows))\<rparr>))
      | AwaitingInsert prev \<Rightarrow>
          (let hash = sha256Hex (canonical prev (call_eventType c) (call_payload c))
           in case insert_ledger_event rows (call_eventType c) (call_payload c) prev hash of
                Inl e \<Rightarrow> (rows, c\<lparr>call_phase := Thrown e\<rparr>)
              | Inr rows' \<Rightarrow> (rows', c\<lparr>call_phase := Returned hash\<rparr>))
      | Returned h \<Rightarrow> (rows, c)
      | Thrown e \<Rightarrow> (rows, c))"

record system =
  table :: "ledger_event list"
  calls :: "append_call list"

text \<open>
  A schedule is the list of the calls in the order their statements reach the
  database: \<open>step i\<close> runs the next statement of call \<open>i\<close>.
\<close>

definition step :: "nat \<Rightarrow> system \<Rightarrow> system" where
  "step i s =
     (if i < length (calls s)
      then (let r = call_step (table s) (calls s ! i)
            in \<lparr>table = fst r, calls = (calls s)[i := snd r]\<rparr>)
      else s)"

definition run :: "nat list \<Rightarrow> system \<Rightarrow> system" where
  "run schedule s = fold step schedule s"

text \<open>Two refresh commands that arrive together on the bootstrapped ledger.\<close>

definition other_payload :: jsval where
  "other_payload = JObj [(''locationId'', JStr ''y'')]"

definition other_digest :: string where
  "other_digest = ''e30135a363170b184de669d44ccad2778c11aa35e9dfb166bcf19dc7f5047c5f''"

definition two_calls :: system where
  "two_calls =
     \<lparr>table = [genesis],
      calls =
        [\<lparr>call_eventType = ''CMD_LOCATION_REFRESH'', call_payload = refresh_payload,
          call_phase = NotStarted\<rparr>,
         \<lparr>call_eventType = ''CMD_LOCATION_REFRESH'', call_payload = other_payload,
          call_phase = NotStarted\<rparr>]\<rparr>"

definition forked_ledger :: "ledger_event list" where
  "forked_ledger =
     [genesis,
      \<lparr>event_id = 2, event_type = ''CMD_LOCATION_REFRESH'', payload = refresh_payload,
       prev_hash = genesis_digest, event_hash = refresh_digest\<rparr>,
      \<lparr>event_id = 3, event_type = ''CMD_LOCATION_REFRESH'', payload = other_payload,
       prev_hash = genesis_digest, event_hash = other_digest\<rparr>]"

section \<open>Properties of the encoder\<close>

subsection \<open>The encoding of an object does not depend on the order of its keys\<close>

lemma sort_same_set:
  assumes "distinct ks1" and "distinct ks2" and "set ks1 = set ks2"
  shows "sort ks1 = sort ks2"
proof (rule sorted_distinct_set_unique)
  from assms(3) show "set (sort ks1) = set (sort ks2)" by simp
qed (use assms in simp_all)

lemma get_prop_member:
  assumes "k \<in> set (map fst kvs)"
  shows "(k, get_prop kvs k) \<in> set kvs"
proof -
  from assms obtain v where "map_of kvs k = Some v"
    by (metis map_of_eq_None_iff not_Some_eq set_map)
  then show ?thesis by (simp add: get_prop_def map_of_SomeD)
qed

subsection \<open>The encoding of a payload the column gives back\<close>

text \<open>
  The column gives back another object than the one stored, and the two have the same
  encoding when no property of the stored one holds \<^verbatim>\<open>undefined\<close>: the encoder sorts
  the keys itself, writes \<^verbatim>\<open>null\<close> for what \<^verbatim>\<open>JSON.stringify\<close> turns into \<^verbatim>\<open>null\<close>, and
  encodes a \<^verbatim>\<open>Date\<close> through its \<^verbatim>\<open>toJSON\<close>.
\<close>

lemma get_prop_map_values:
  assumes "k \<in> set (map fst kvs)"
  shows "get_prop (map (\<lambda>kv. (fst kv, f (snd kv))) kvs) k = f (get_prop kvs k)"
proof -
  have "map_of (map (\<lambda>kv. (fst kv, f (snd kv))) kvs) k = map_option f (map_of kvs k)"
    by (induction kvs) auto
  moreover from assms obtain v where "map_of kvs k = Some v"
    by (metis map_of_eq_None_iff not_Some_eq set_map)
  ultimately show ?thesis by (simp add: get_prop_def)
qed

lemma get_prop_stored_order:
  assumes "distinct (map fst kvs)"
  shows "get_prop (parsed_order (jsonb_order kvs)) k = get_prop kvs k"
    and "distinct (map fst (parsed_order (jsonb_order kvs)))"
    and "set (map fst (parsed_order (jsonb_order kvs))) = set (map fst kvs)"
proof -
  have s: "set (parsed_order (jsonb_order kvs)) = set kvs"
    by (auto simp: parsed_order_def jsonb_order_def)
  from assms have "distinct (map fst (jsonb_order kvs))"
    by (simp add: jsonb_order_def distinct_map)
  then show d: "distinct (map fst (parsed_order (jsonb_order kvs)))"
    by (auto simp: parsed_order_def distinct_map inj_on_def)
  with assms s have "map_of (parsed_order (jsonb_order kvs)) = map_of kvs"
    by (simp add: map_of_inject_set)
  then show "get_prop (parsed_order (jsonb_order kvs)) k = get_prop kvs k"
    by (simp add: get_prop_def)
  from s show "set (map fst (parsed_order (jsonb_order kvs))) = set (map fst kvs)"
    by simp
qed

lemma keys_jsonb:
  assumes "list_all (\<lambda>kv. snd kv \<noteq> JUndefined \<and> defined_properties (snd kv)) kvs"
  shows "filter (\<lambda>kv. snd kv \<noteq> JUndefined) kvs = kvs"
  using assms by (induction kvs) auto

lemma jsonb_encoding:
  "distinct_keys v \<Longrightarrow> defined_properties v \<Longrightarrow> stableStringify (jsonb v) = stableStringify v"
proof (induction v rule: stableStringify.induct)
  case (6 vs)
  then show ?case by (simp add: list_all_iff comp_def cong: map_cong)
next
  case (9 kvs)
  define kvs' where "kvs' = map (\<lambda>kv. (fst kv, jsonb (snd kv))) kvs"
  define st where "st = parsed_order (jsonb_order kvs')"
  from "9.prems" have d: "distinct (map fst kvs)" by simp
  have keys': "map fst kvs' = map fst kvs" by (simp add: kvs'_def comp_def)
  from "9.prems"(2) have j: "jsonb (JObj kvs) = JObj st"
    by (simp add: keys_jsonb kvs'_def st_def)
  have d': "distinct (map fst kvs')" using d keys' by simp
  from get_prop_stored_order(2,3) [OF d'] d keys'
  have keys: "sort (map fst st) = sort (map fst kvs)"
    unfolding st_def by (intro sort_same_set) simp_all
  have val: "stableStringify (get_prop st k) =
      stableStringify (get_prop kvs k)" if k: "k \<in> set (map fst kvs)" for k
  proof -
    from get_prop_member [OF k] "9.prems"
    have "distinct_keys (get_prop kvs k)" "defined_properties (get_prop kvs k)"
      by (auto simp: list_all_iff)
    with "9.IH" [OF refl, of k] k
    have "stableStringify (jsonb (get_prop kvs k)) = stableStringify (get_prop kvs k)" by simp
    moreover have "get_prop kvs' k = jsonb (get_prop kvs k)"
      unfolding kvs'_def by (rule get_prop_map_values [OF k])
    ultimately show ?thesis
      by (simp only: st_def get_prop_stored_order(1) [OF d'])
  qed
  have "map (\<lambda>k. JSON_stringify_string k @ '':'' @
                stableStringify (get_prop st k))
          (sort (map fst kvs)) =
        map (\<lambda>k. JSON_stringify_string k @ '':'' @ stableStringify (get_prop kvs k))
          (sort (map fst kvs))"
  proof (rule map_cong [OF refl])
    fix k assume "k \<in> set (sort (map fst kvs))"
    then have "k \<in> set (map fst kvs)" by simp
    from val [OF this]
    show "JSON_stringify_string k @ '':'' @
            stableStringify (get_prop st k) =
          JSON_stringify_string k @ '':'' @ stableStringify (get_prop kvs k)"
      by simp
  qed
  then show ?case
    unfolding j by (simp only: stableStringify.simps Let_def keys)
qed (simp_all split: jsnumber.splits)

section \<open>Properties of the ledger\<close>

subsection \<open>The digest has 64 characters\<close>

lemma length_big_endian: "length (big_endian k b n) = k"
  by (induction k b n rule: big_endian.induct) simp_all

lemma length_sha256_round: "length (sha256_round kw st) = 8"
  by (simp add: sha256_round_def Let_def)

lemma length_fold_round:
  "length st = 8 \<Longrightarrow> length (fold sha256_round kws st) = 8"
  by (induction kws arbitrary: st) (simp_all add: length_sha256_round)

lemma length_sha256_compress: "length hs = 8 \<Longrightarrow> length (sha256_compress block hs) = 8"
  by (simp add: sha256_compress_def length_fold_round)

lemma length_fold_compress:
  "length hs = 8 \<Longrightarrow> length (fold sha256_compress blocks hs) = 8"
  by (induction blocks arbitrary: hs) (simp_all add: length_sha256_compress)

lemma length_sha256: "length (sha256 bs) = 8"
  by (simp add: sha256_def length_fold_compress sha256_H0_def)

lemma length_concat_hex: "length (concat (map hex_word ws)) = 8 * length ws"
  by (induction ws) (simp_all add: hex_word_def length_big_endian)

lemma length_sha256Hex: "length (sha256Hex s) = 64"
  by (simp add: sha256Hex_def length_concat_hex length_sha256)

subsection \<open>The genesis row verifies\<close>

text \<open>
  The string literal of \<^verbatim>\<open>init.sql\<close> is what \<^verbatim>\<open>stableStringify\<close> gives for the genesis
  event, so the hash the audit recomputes is the one the bootstrap stored.
\<close>

lemma genesis_canonical:
  "canonical ''0'' ''GENESIS'' (JObj [(''note'', JStr ''n29 climarisk genesis'')]) =
   ''0'' @ ''\<newline>'' @ genesis_literal"
  by (simp add: canonical_def genesis_literal_def get_prop_def JSON_stringify_string_def
      quote_char_def)

lemma genesis_computed: "computed_hash genesis = event_hash genesis"
  by (simp add: computed_hash_def genesis_def genesis_canonical)

lemma verify_genesis: "verify [genesis] = \<lparr>ok = True, count = 1, errors = []\<rparr>"
proof -
  have "prev_hash genesis = ''0''" by (simp add: genesis_def)
  then show ?thesis
    using genesis_computed by (simp add: verify_def verify_step_def)
qed

subsection \<open>The audit of a ledger with one more row\<close>

lemma verify_step_append:
  assumes "i < length rows"
  shows "verify_step (rows @ [r]) i st = verify_step rows i st"
proof -
  from assms have "i - 1 < length rows" by simp
  with assms show ?thesis by (simp add: verify_step_def nth_append Let_def)
qed

lemma fold_verify_append:
  "fold (verify_step (rows @ [r])) [0..<length rows] st =
   fold (verify_step rows) [0..<length rows] st"
  by (rule fold_cong) (auto simp: verify_step_append)

lemma verify_snoc:
  assumes "rows \<noteq> []"
    and "verify rows = \<lparr>ok = True, count = length rows, errors = []\<rparr>"
    and "computed_hash r = event_hash r"
    and "prev_hash r = event_hash (last rows)"
  shows "verify (rows @ [r]) = \<lparr>ok = True, count = Suc (length rows), errors = []\<rparr>"
proof -
  from assms(2) have st: "fold (verify_step rows) [0..<length rows] (True, []) = (True, [])"
    by (simp add: verify_def Let_def prod_eq_iff)
  from assms(1) have l: "last rows = rows ! (length rows - 1)" by (simp add: last_conv_nth)
  from assms(1) have pos: "length rows \<noteq> 0" by simp
  show ?thesis
    using assms(3,4) pos
    by (simp add: verify_def fold_verify_append st verify_step_def l nth_append)
qed

lemma verify_snoc_mismatch:
  assumes "rows \<noteq> []"
    and "verify rows = \<lparr>ok = True, count = length rows, errors = []\<rparr>"
    and "computed_hash r \<noteq> event_hash r"
    and "prev_hash r = event_hash (last rows)"
  shows "verify (rows @ [r]) =
           \<lparr>ok = False, count = Suc (length rows),
            errors = [hash_mismatch (String_id r) (event_hash r) (computed_hash r)]\<rparr>"
proof -
  from assms(2) have st: "fold (verify_step rows) [0..<length rows] (True, []) = (True, [])"
    by (simp add: verify_def Let_def prod_eq_iff)
  from assms(1) have l: "last rows = rows ! (length rows - 1)" by (simp add: last_conv_nth)
  from assms(1) have pos: "length rows \<noteq> 0" by simp
  show ?thesis
    using assms(3,4) pos
    by (simp add: verify_def fold_verify_append st verify_step_def l nth_append)
qed

lemma count_verify: "count (verify rows) = length rows"
  by (simp add: verify_def Let_def)

subsection \<open>What an append returns and stores\<close>

lemma appendLedgerEvent_Inr:
  assumes "appendLedgerEvent rows eventType payloadObj = Inr (res, rows')"
  shows "rows \<noteq> [] \<and>
         prevHash res = event_hash (last rows) \<and>
         eventHash res = sha256Hex (canonical (prevHash res) eventType payloadObj) \<and>
         rows' = rows @ [\<lparr>event_id = next_id rows, event_type = eventType,
                          payload = jsonb payloadObj,
                          prev_hash = prevHash res, event_hash = eventHash res\<rparr>]"
  using assms
  by (auto simp: appendLedgerEvent_def insert_ledger_event_def Let_def
           split: list.splits if_splits jsval.splits)

lemma insert_ledger_event_object:
  "insert_ledger_event rows eventType (JObj kvs) prev hash =
     (if \<not> nul_free (JObj kvs) then Inl UntranslatableCharacter
      else if hash \<in> set (map event_hash rows) then Inl UniqueViolation
      else Inr (rows @
        [\<lparr>event_id = next_id rows, event_type = eventType, payload = jsonb (JObj kvs),
          prev_hash = prev, event_hash = hash\<rparr>]))"
  by (simp add: insert_ledger_event_def)

text \<open>The hash the audit recomputes from the payload it reads is the hash of the payload stored.\<close>

lemma canonical_jsonb:
  assumes "distinct_keys payloadObj" and "defined_properties payloadObj"
  shows "canonical prev eventType (jsonb payloadObj) = canonical prev eventType payloadObj"
  using jsonb_encoding [OF assms] by (simp add: canonical_def get_prop_def)

lemma append_keeps_verified:
  assumes "rows \<noteq> []"
    and "verify rows = \<lparr>ok = True, count = length rows, errors = []\<rparr>"
    and "appendLedgerEvent rows eventType payloadObj = Inr (res, rows')"
    and "distinct_keys payloadObj" and "defined_properties payloadObj"
  shows "rows' \<noteq> [] \<and> verify rows' = \<lparr>ok = True, count = length rows', errors = []\<rparr> \<and>
         length rows' = Suc (length rows)"
proof -
  define r where "r = \<lparr>event_id = next_id rows, event_type = eventType,
                          payload = jsonb payloadObj,
                          prev_hash = prevHash res, event_hash = eventHash res\<rparr>"
  from appendLedgerEvent_Inr [OF assms(3)]
  have rows': "rows' = rows @ [r]"
    and p: "prevHash res = event_hash (last rows)"
    and h: "eventHash res = sha256Hex (canonical (prevHash res) eventType payloadObj)"
    by (simp_all add: r_def)
  have "computed_hash r = event_hash r"
    by (simp add: computed_hash_def r_def h canonical_jsonb [OF assms(4,5)])
  moreover have "prev_hash r = event_hash (last rows)" by (simp add: r_def p)
  ultimately have "verify (rows @ [r]) = \<lparr>ok = True, count = Suc (length rows), errors = []\<rparr>"
    using verify_snoc [OF assms(1,2)] by blast
  then show ?thesis by (simp add: rows')
qed

lemma append_all_verified:
  assumes "rows \<noteq> []"
    and "verify rows = \<lparr>ok = True, count = length rows, errors = []\<rparr>"
    and "append_all rows evs = Inr rows'"
    and "\<forall>ev\<in>set evs. distinct_keys (snd ev) \<and> defined_properties (snd ev)"
  shows "verify rows' = \<lparr>ok = True, count = length rows + length evs, errors = []\<rparr>"
  using assms
proof (induction evs arbitrary: rows)
  case Nil
  then show ?case by simp
next
  case (Cons ev evs)
  obtain t p where ev: "ev = (t, p)" by (cases ev)
  from Cons.prems(3) obtain res rows1
    where a: "appendLedgerEvent rows t p = Inr (res, rows1)"
      and rest: "append_all rows1 evs = Inr rows'"
    by (auto simp: ev split: sum.splits)
  from Cons.prems(4) have p: "distinct_keys p" "defined_properties p"
    and tl: "\<forall>ev\<in>set evs. distinct_keys (snd ev) \<and> defined_properties (snd ev)"
    by (simp_all add: ev)
  from append_keeps_verified [OF Cons.prems(1,2) a p]
  have "rows1 \<noteq> []" "verify rows1 = \<lparr>ok = True, count = length rows1, errors = []\<rparr>"
    "length rows1 = Suc (length rows)" by simp_all
  with Cons.IH [OF _ _ rest tl] show ?case by simp
qed

subsection \<open>A row whose hash does not match\<close>

lemma verify_step_keeps:
  "set (snd st) \<subseteq> set (snd (verify_step rows i st)) \<and>
   (\<not> fst st \<longrightarrow> \<not> fst (verify_step rows i st))"
  by (auto simp: verify_step_def Let_def)

lemma fold_verify_keeps:
  "set (snd st) \<subseteq> set (snd (fold (verify_step rows) js st)) \<and>
   (\<not> fst st \<longrightarrow> \<not> fst (fold (verify_step rows) js st))"
proof (induction js arbitrary: st)
  case Nil
  then show ?case by simp
next
  case (Cons j js)
  from verify_step_keeps [of st rows j] Cons.IH [of "verify_step rows j st"]
  show ?case by auto
qed

lemma verify_step_mismatch:
  assumes "computed_hash (rows ! i) \<noteq> event_hash (rows ! i)"
  shows "mismatch_of (rows ! i) \<in> set (snd (verify_step rows i st)) \<and>
         \<not> fst (verify_step rows i st)"
  using assms by (auto simp: verify_step_def Let_def mismatch_of_def)

lemma upt_split_at: "i < n \<Longrightarrow> [0..<n] = [0..<i] @ i # [Suc i..<n]"
  using upt_add_eq_append [of 0 i "n - i"] by (simp add: upt_conv_Cons)

lemma verify_mismatch:
  assumes "i < length rows" and "computed_hash (rows ! i) \<noteq> event_hash (rows ! i)"
  shows "\<not> ok (verify rows) \<and> mismatch_of (rows ! i) \<in> set (errors (verify rows))"
proof -
  define st where "st = fold (verify_step rows) [0..<i] (True, [])"
  from verify_step_mismatch [OF assms(2), of st]
    fold_verify_keeps [of "verify_step rows i st" rows "[Suc i..<length rows]"]
  show ?thesis
    by (auto simp: verify_def upt_split_at [OF assms(1)] st_def)
qed

lemma verify_step_mismatch_origin:
  assumes "i < length rows"
    and "\<forall>d x y. hash_mismatch d x y \<in> set (snd st) \<longrightarrow>
           (\<exists>j<length rows. hash_mismatch d x y = mismatch_of (rows ! j))"
  shows "\<forall>d x y. hash_mismatch d x y \<in> set (snd (verify_step rows i st)) \<longrightarrow>
           (\<exists>j<length rows. hash_mismatch d x y = mismatch_of (rows ! j))"
  using assms by (auto simp: verify_step_def Let_def mismatch_of_def)

lemma fold_verify_mismatch_origin:
  assumes "set js \<subseteq> {..<length rows}"
    and "\<forall>d x y. hash_mismatch d x y \<in> set (snd st) \<longrightarrow>
           (\<exists>j<length rows. hash_mismatch d x y = mismatch_of (rows ! j))"
  shows "\<forall>d x y. hash_mismatch d x y \<in> set (snd (fold (verify_step rows) js st)) \<longrightarrow>
           (\<exists>j<length rows. hash_mismatch d x y = mismatch_of (rows ! j))"
  using assms
proof (induction js arbitrary: st)
  case Nil
  then show ?case by simp
next
  case (Cons j js)
  from Cons.prems(1) have j: "j < length rows" and js: "set js \<subseteq> {..<length rows}" by auto
  from Cons.IH [OF js verify_step_mismatch_origin [OF j Cons.prems(2)]]
  show ?case by simp
qed

lemma verify_mismatch_origin:
  assumes "hash_mismatch d x y \<in> set (errors (verify rows))"
  shows "\<exists>j<length rows. d = String_id (rows ! j) \<and> x = event_hash (rows ! j) \<and>
           y = computed_hash (rows ! j)"
proof -
  have "\<forall>d x y. hash_mismatch d x y
            \<in> set (snd (fold (verify_step rows) [0..<length rows] (True, []))) \<longrightarrow>
           (\<exists>j<length rows. hash_mismatch d x y = mismatch_of (rows ! j))"
    by (rule fold_verify_mismatch_origin) auto
  with assms show ?thesis
    by (simp add: verify_def Let_def mismatch_of_def)
qed

section \<open>Properties of the decision rules\<close>

lemmas rule_defs = RAIN_20MM_1H_def RAIN_8MM_1H_def WIND_20MS_def WIND_12MS_def
  TEMP_38C_def TEMP_33C_def TEMP_m3C_def TEMP_2C_def

lemmas compare_defs = js_ge_def js_le_def ToNumber_def fin_ge_def fin_le_def

subsection \<open>The sort keeps the rules\<close>

lemma set_insert_by: "set (insert_by cmp x xs) = insert x (set xs)"
  by (induction xs) auto

lemma set_Array_sort: "set (Array_sort cmp xs) = set xs"
  by (induction xs) (simp_all add: Array_sort_def set_insert_by)

lemma matched_pushed: "matched lc inp = set (pushed_rules inp)"
  by (simp add: matched_def decideRisk_def Let_def set_Array_sort)

subsection \<open>Which rule is matched when\<close>

lemma matched_rain:
  "RAIN_20MM_1H \<in> matched lc inp \<longleftrightarrow> js_ge (rain1hMm inp) 20"
  "RAIN_8MM_1H \<in> matched lc inp \<longleftrightarrow> \<not> js_ge (rain1hMm inp) 20 \<and> js_ge (rain1hMm inp) 8"
  by (auto simp: matched_pushed pushed_rules_def Let_def rule_defs)

lemma matched_wind:
  "WIND_20MS \<in> matched lc inp \<longleftrightarrow> js_ge (windMs inp) 20"
  "WIND_12MS \<in> matched lc inp \<longleftrightarrow> \<not> js_ge (windMs inp) 20 \<and> js_ge (windMs inp) 12"
  by (auto simp: matched_pushed pushed_rules_def Let_def rule_defs)

lemma matched_heat:
  "TEMP_38C \<in> matched lc inp \<longleftrightarrow> js_ge (tempC inp) 38"
  "TEMP_33C \<in> matched lc inp \<longleftrightarrow> \<not> js_ge (tempC inp) 38 \<and> js_ge (tempC inp) 33"
  by (auto simp: matched_pushed pushed_rules_def Let_def rule_defs)

lemma matched_cold:
  "TEMP_m3C \<in> matched lc inp \<longleftrightarrow> js_le (tempC inp) (- 3)"
  "TEMP_2C \<in> matched lc inp \<longleftrightarrow> \<not> js_le (tempC inp) (- 3) \<and> js_le (tempC inp) 2"
  by (auto simp: matched_pushed pushed_rules_def Let_def rule_defs)

lemma decision_of_matched:
  "decision (decideRisk lc inp) =
     (if \<exists>r \<in> matched lc inp. severity r = ''CRITICAL'' then ''CRITICAL''
      else if \<exists>r \<in> matched lc inp. severity r = ''ALERT'' then ''ALERT''
      else ''NORMAL'')"
  by (simp add: matched_pushed decideRisk_def Let_def list_ex_iff)

subsection \<open>The thresholds are ordered\<close>

lemma pow10_pos: "0 < (10::int) ^ n"
  by simp

lemma js_ge_antimono:
  assumes "js_ge t c" and "c' \<le> c"
  shows "js_ge t c'"
proof (cases "ToNumber t")
  case (Fin s e)
  show ?thesis
  proof (cases "0 \<le> e")
    case True
    with assms Fin show ?thesis by (simp add: js_ge_def fin_ge_def)
  next
    case False
    from assms(2) have m: "c' * 10 ^ nat (- e) \<le> c * 10 ^ nat (- e)"
      by (intro mult_right_mono) simp_all
    from assms(1) Fin False have "c * 10 ^ nat (- e) \<le> s"
      by (simp add: js_ge_def fin_ge_def)
    with m have "c' * 10 ^ nat (- e) \<le> s" by linarith
    with Fin False show ?thesis by (simp add: js_ge_def fin_ge_def)
  qed
qed (use assms in \<open>simp_all add: js_ge_def\<close>)

lemma js_le_mono:
  assumes "js_le t c" and "c \<le> c'"
  shows "js_le t c'"
proof (cases "ToNumber t")
  case (Fin s e)
  show ?thesis
  proof (cases "0 \<le> e")
    case True
    with assms Fin show ?thesis by (simp add: js_le_def fin_le_def)
  next
    case False
    from assms(2) have m: "c * 10 ^ nat (- e) \<le> c' * 10 ^ nat (- e)"
      by (intro mult_right_mono) simp_all
    from assms(1) Fin False have "s \<le> c * 10 ^ nat (- e)"
      by (simp add: js_le_def fin_le_def)
    with m have "s \<le> c' * 10 ^ nat (- e)" by linarith
    with Fin False show ?thesis by (simp add: js_le_def fin_le_def)
  qed
qed (use assms in \<open>simp_all add: js_le_def\<close>)

lemma temp_not_both:
  assumes "js_ge t 33"
  shows "\<not> js_le t 2"
proof (cases "ToNumber t")
  case (Fin s e)
  show ?thesis
  proof (cases "0 \<le> e")
    case True
    with assms Fin show ?thesis by (simp add: js_ge_def js_le_def fin_ge_def fin_le_def)
  next
    case False
    have m: "2 * 10 ^ nat (- e) < (33::int) * 10 ^ nat (- e)"
      using pow10_pos [of "nat (- e)"] by simp
    from assms Fin False have "33 * 10 ^ nat (- e) \<le> s"
      by (simp add: js_ge_def fin_ge_def)
    with m have "\<not> s \<le> 2 * 10 ^ nat (- e)" by linarith
    with Fin False show ?thesis
      by (simp add: js_le_def fin_le_def)
  qed
qed (use assms in \<open>simp_all add: js_ge_def js_le_def\<close>)

lemma heat_cold:
  "js_ge t 33 \<Longrightarrow> js_le t 2 = False"
  "js_ge t 38 \<Longrightarrow> js_le t 2 = False"
  "js_ge t 33 \<Longrightarrow> js_le t (- 3) = False"
  "js_ge t 38 \<Longrightarrow> js_le t (- 3) = False"
  using temp_not_both js_ge_antimono [of t 38 33] js_le_mono [of t "- 3" 2] by auto

subsection \<open>The sort, for a comparator that agrees with the order of a key\<close>

lemma sorted_insert_by:
  assumes "sorted (map key ys)"
    and "\<forall>y \<in> set ys. (cmp x y \<le> 0) = (key x \<le> key y)"
  shows "sorted (map key (insert_by cmp x ys))"
  using assms
proof (induction ys)
  case Nil
  then show ?case by simp
next
  case (Cons y ys)
  show ?case
  proof (cases "cmp x y \<le> 0")
    case True
    with Cons.prems have "key x \<le> key y" by simp
    with Cons.prems(1) True show ?thesis by auto
  next
    case False
    with Cons.prems have xy: "key y \<le> key x" by auto
    from Cons.prems have "sorted (map key (insert_by cmp x ys))"
      by (intro Cons.IH) auto
    with Cons.prems(1) xy False show ?thesis
      by (auto simp: set_insert_by)
  qed
qed

lemma sorted_Array_sort:
  assumes "distinct xs"
    and "\<forall>x \<in> set xs. \<forall>y \<in> set xs. x \<noteq> y \<longrightarrow> (cmp x y \<le> 0) = (key x \<le> key y)"
  shows "sorted (map key (Array_sort cmp xs))"
  using assms
proof (induction xs)
  case Nil
  then show ?case by (simp add: Array_sort_def)
next
  case (Cons x xs)
  from Cons have s: "sorted (map key (Array_sort cmp xs))" by auto
  have "Array_sort cmp (x # xs) = insert_by cmp x (Array_sort cmp xs)"
    by (simp add: Array_sort_def)
  moreover from Cons.prems
  have "\<forall>y \<in> set (Array_sort cmp xs). (cmp x y \<le> 0) = (key x \<le> key y)"
    by (auto simp: set_Array_sort)
  ultimately show ?case using sorted_insert_by [OF s] by simp
qed

lemma distinct_insert_by: "distinct (insert_by cmp x xs) = (x \<notin> set xs \<and> distinct xs)"
  by (induction xs) (auto simp: set_insert_by)

lemma Array_sort_Cons: "Array_sort cmp (x # xs) = insert_by cmp x (Array_sort cmp xs)"
  by (simp add: Array_sort_def)

lemma distinct_Array_sort: "distinct (Array_sort cmp xs) = distinct xs"
proof (induction xs)
  case Nil
  then show ?case by (simp add: Array_sort_def)
next
  case (Cons x xs)
  then show ?case by (simp add: Array_sort_Cons distinct_insert_by set_Array_sort)
qed

subsection \<open>The pushed rules: one of each family at most\<close>

lemma pushed_heads: "distinct (map (\<lambda>r. hd (rule_id r)) (pushed_rules inp))"
  by (simp add: pushed_rules_def Let_def rule_defs heat_cold)

lemma pushed_ids: "rule_id ` set (pushed_rules inp) \<subseteq> set all_rule_ids"
  by (auto simp: pushed_rules_def Let_def rule_defs all_rule_ids_def)

lemma pushed_distinct: "distinct (pushed_rules inp)"
  using pushed_heads [of inp] by (simp add: distinct_map)

lemma pushed_ids_distinct: "distinct (map rule_id (pushed_rules inp))"
proof -
  have "inj_on rule_id (set (pushed_rules inp))"
  proof (rule inj_onI)
    fix x y
    assume "x \<in> set (pushed_rules inp)" "y \<in> set (pushed_rules inp)" "rule_id x = rule_id y"
    with pushed_heads [of inp] show "x = y"
      by (auto simp: distinct_map inj_on_def)
  qed
  with pushed_distinct show ?thesis by (simp add: distinct_map)
qed

lemma hd_less: "a \<noteq> [] \<Longrightarrow> b \<noteq> [] \<Longrightarrow> hd a < hd b \<Longrightarrow> a < b"
  by (cases a; cases b) simp_all

lemma ids_nonempty: "a \<in> set all_rule_ids \<Longrightarrow> a \<noteq> []"
  by (auto simp: all_rule_ids_def)

lemma sorted_rules:
  assumes "alphabetical lc"
  shows "sorted (map rule_id (rules (applied_rule (decideRisk lc inp))))"
proof -
  from assms have al: "\<And>a b. a \<in> set all_rule_ids \<Longrightarrow> b \<in> set all_rule_ids \<Longrightarrow> hd a < hd b \<Longrightarrow>
      lc a b < 0 \<and> 0 < lc b a"
    by (simp add: alphabetical_def list_all_iff)
  have agree: "(lc (rule_id x) (rule_id y) \<le> 0) = (rule_id x \<le> rule_id y)"
    if x: "x \<in> set (pushed_rules inp)" and y: "y \<in> set (pushed_rules inp)" and ne: "x \<noteq> y"
    for x y
  proof -
    from x y pushed_ids [of inp]
    have ix: "rule_id x \<in> set all_rule_ids" and iy: "rule_id y \<in> set all_rule_ids" by auto
    from pushed_heads [of inp] x y ne have "hd (rule_id x) \<noteq> hd (rule_id y)"
      by (auto simp: distinct_map inj_on_def)
    then consider "hd (rule_id x) < hd (rule_id y)" | "hd (rule_id y) < hd (rule_id x)"
      by (auto simp: neq_iff)
    then show ?thesis
    proof cases
      case 1
      from al [OF ix iy 1] hd_less [OF ids_nonempty [OF ix] ids_nonempty [OF iy] 1]
      show ?thesis by simp
    next
      case 2
      from al [OF iy ix 2] hd_less [OF ids_nonempty [OF iy] ids_nonempty [OF ix] 2]
      show ?thesis by simp
    qed
  qed
  have "sorted (map rule_id (Array_sort (\<lambda>a b. lc (rule_id a) (rule_id b)) (pushed_rules inp)))"
    by (rule sorted_Array_sort [OF pushed_distinct]) (use agree in blast)
  then show ?thesis by (simp add: decideRisk_def Let_def)
qed

lemma alphabetical_codeunit_compare: "alphabetical codeunit_compare"
  by (simp add: alphabetical_def all_rule_ids_def codeunit_compare_def)

section \<open>Properties of the projections\<close>

subsection \<open>What \<^verbatim>\<open>applyProjections\<close> writes\<close>

lemma applyProjections_Inr:
  assumes "applyProjections t1 t2 db a = Inr db'"
  shows "projection_violation db a = None \<and>
         locations db' = locations db \<and>
         location_state db' = (location_state db)(arg_locationId a \<mapsto>
           \<lparr>ls_location_id = arg_locationId a, ls_updated_at = t1,
            ls_decision = arg_decision a, ls_applied_rule = arg_applied_rule a,
            ls_raw_weather = arg_raw_weather a, ls_ledger_hash = arg_ledger_hash a\<rparr>) \<and>
         weather_snapshots db' = weather_snapshots db @
           [\<lparr>ws_id = next_snapshot_id (weather_snapshots db),
             ws_location_id = arg_locationId a, ws_created_at = t2,
             ws_decision = arg_decision a, ws_applied_rule = arg_applied_rule a,
             ws_raw_weather = arg_raw_weather a, ws_ledger_hash = arg_ledger_hash a\<rparr>]"
  using assms
  by (auto simp: applyProjections_def upsert_location_state_def insert_weather_snapshot_def
        projection_violation_def split: option.splits sum.splits if_splits)

lemma applyProjections_accepts:
  assumes "projection_violation db a = None"
  shows "\<exists>db'. applyProjections t1 t2 db a = Inr db'"
  using assms
  by (auto simp: applyProjections_def upsert_location_state_def insert_weather_snapshot_def
        projection_violation_def split: option.splits sum.splits if_splits)

lemma projection_violation_frame:
  assumes "locations db' = locations db"
  shows "projection_violation db' a = projection_violation db a"
  using assms by (simp add: projection_violation_def)

section \<open>Properties of the encoder on the heap\<close>

subsection \<open>The only error is the overflow of the stack\<close>

lemma only_RangeError: "stableStringify_heap d h v = Inl e \<Longrightarrow> e = RangeError"
proof (induction d h v arbitrary: e rule: stableStringify_heap.induct)
  case (7 d h a)
  show ?case
  proof (cases "h a")
    case (HArr vs)
    have "collect (map (stableStringify_heap d h) vs) = Inl e' \<Longrightarrow> e' = RangeError" for e'
      using 7(1) [OF HArr]
    proof (induction vs)
      case Nil
      then show ?case by simp
    next
      case (Cons v vs)
      then show ?case
        by (cases "stableStringify_heap d h v") (auto split: sum.splits)
    qed
    with 7(4) HArr show ?thesis by (auto split: sum.splits)
  next
    case (HObj kvs)
    define f where "f = (\<lambda>k. case stableStringify_heap d h (get_hprop kvs k) of
                                        Inl e \<Rightarrow> Inl e
                                      | Inr s \<Rightarrow> Inr (JSON_stringify_string k @ '':'' @ s))"
    have "set ks \<subseteq> set (sort (map fst kvs)) \<Longrightarrow> collect (map f ks) = Inl e' \<Longrightarrow> e' = RangeError" for e' ks
    proof (induction ks)
      case Nil
      then show ?case by simp
    next
      case (Cons k ks)
      then show ?case
        using 7(2) [OF HObj refl, of k]
        by (cases "stableStringify_heap d h (get_hprop kvs k)") (auto simp: f_def split: sum.splits)
    qed
    from this [of "sort (map fst kvs)"] 7(4) HObj show ?thesis
      by (auto simp: f_def Let_def split: sum.splits)
  next
    case (HDate t)
    with 7(3) [OF HDate] 7(4) show ?thesis by simp
  qed
qed simp_all


lemma collect_Inl:
  assumes "x \<in> set xs" and "f x = Inl e" and "\<And>y e'. y \<in> set xs \<Longrightarrow> f y = Inl e' \<Longrightarrow> e' = e"
  shows "collect (map f xs) = Inl e"
  using assms
proof (induction xs)
  case Nil
  then show ?case by simp
next
  case (Cons y ys)
  show ?case
  proof (cases "f y")
    case (Inl e')
    with Cons.prems(3) [of y e'] show ?thesis by simp
  next
    case (Inr s)
    with Cons.prems have "x \<in> set ys" by auto
    have "collect (map f ys) = Inl e"
    proof (rule Cons.IH [OF \<open>x \<in> set ys\<close> Cons.prems(2)])
      fix z e'
      assume "z \<in> set ys" "f z = Inl e'"
      then show "e' = e" using Cons.prems(3) [of z e'] by simp
    qed
    with Inr show ?thesis by simp
  qed
qed

subsection \<open>From an address that reaches a cycle the encoder does not return\<close>

lemma reaches_cycle_step:
  assumes "(a, c) \<in> (edges h)\<^sup>*" and "(c, c) \<in> (edges h)\<^sup>+"
  shows "\<exists>b. (a, b) \<in> edges h \<and> (b, c) \<in> (edges h)\<^sup>*"
proof (cases "a = c")
  case True
  from assms(2) obtain b where "(c, b) \<in> edges h" "(b, c) \<in> (edges h)\<^sup>*"
    by (auto dest: tranclD)
  with True show ?thesis by blast
next
  case False
  with assms(1) obtain b where "(a, b) \<in> edges h" "(b, c) \<in> (edges h)\<^sup>*"
    by (auto elim: converse_rtranclE)
  then show ?thesis by blast
qed

lemma cycle_overflows:
  assumes "(c, c) \<in> (edges h)\<^sup>+"
  shows "(a, c) \<in> (edges h)\<^sup>* \<Longrightarrow> stableStringify_heap d h (HRef a) = Inl RangeError"
proof (induction d arbitrary: a)
  case 0
  then show ?case by simp
next
  case (Suc d)
  from reaches_cycle_step [OF Suc.prems assms]
  obtain b where e: "(a, b) \<in> edges h" and r: "(b, c) \<in> (edges h)\<^sup>*" by blast
  from Suc.IH [OF r] have ov: "stableStringify_heap d h (HRef b) = Inl RangeError" .
  from e have vis: "HRef b \<in> visited h a" by (simp add: edges_def)
  show ?case
  proof (cases "h a")
    case (HArr vs)
    with vis have "HRef b \<in> set vs" by (simp add: visited_def)
    from collect_Inl [of "HRef b" vs "stableStringify_heap d h" RangeError, OF this ov]
      only_RangeError
    have "collect (map (stableStringify_heap d h) vs) = Inl RangeError" by blast
    with HArr show ?thesis by simp
  next
    case (HObj kvs)
    define f where "f = (\<lambda>k. case stableStringify_heap d h (get_hprop kvs k) of
                                        Inl e \<Rightarrow> Inl e
                                      | Inr s \<Rightarrow> Inr (JSON_stringify_string k @ '':'' @ s))"
    from vis HObj have "HRef b \<in> get_hprop kvs ` set (map fst kvs)"
      by (simp add: visited_def)
    then obtain k where k: "k \<in> set (map fst kvs)" and g: "get_hprop kvs k = HRef b"
      by (metis imageE)
    from k have k': "k \<in> set (sort (map fst kvs))" by simp
    from g ov have fk: "f k = Inl RangeError" by (simp add: f_def)
    have "f y = Inl e' \<Longrightarrow> e' = RangeError" for y e'
      using only_RangeError [of d h "get_hprop kvs y"]
      by (auto simp: f_def split: sum.splits)
    with collect_Inl [of k "sort (map fst kvs)" f RangeError, OF k' fk]
    have "collect (map f (sort (map fst kvs))) = Inl RangeError"
      by blast
    with HObj show ?thesis by (simp add: f_def Let_def)
  next
    case (HDate t)
    with vis show ?thesis by (simp add: visited_def)
  qed
qed


lemma cyclic_self: "cyclic self_heap (HRef 0)"
proof -
  have "HRef 0 \<in> visited self_heap 0"
    by (simp add: visited_def self_heap_def get_hprop_def)
  then have "(0, 0) \<in> edges self_heap" by (simp add: edges_def)
  then have "(0, 0) \<in> (edges self_heap)\<^sup>* \<and> (0, 0) \<in> (edges self_heap)\<^sup>+" by blast
  then show ?thesis unfolding cyclic_def by blast
qed

lemma cyclic_wrapped: "cyclic wrapped_heap (HRef 0)"
proof -
  have "HRef 1 \<in> visited wrapped_heap 0" "HRef 1 \<in> visited wrapped_heap 1"
    by (simp_all add: visited_def wrapped_heap_def get_hprop_def)
  then have "(0, 1) \<in> edges wrapped_heap" "(1, 1) \<in> edges wrapped_heap"
    by (simp_all add: edges_def)
  then have "(0, 1) \<in> (edges wrapped_heap)\<^sup>* \<and> (1, 1) \<in> (edges wrapped_heap)\<^sup>+" by blast
  then show ?thesis unfolding cyclic_def by blast
qed

lemma edges_tree_heap: "edges tree_heap = {(0, 1)}"
  by (auto simp: edges_def visited_def tree_heap_def get_hprop_def split: if_splits)

lemma tree_heap_acyclic: "\<not> cyclic tree_heap v"
proof -
  have "c = 0 \<and> d = 1" if "(c, d) \<in> {(0::nat, 1::nat)}\<^sup>+" for c d
    using that by (induction rule: trancl.induct) auto
  then have "(c, c) \<notin> (edges tree_heap)\<^sup>+" for c
    unfolding edges_tree_heap by fastforce
  then show ?thesis by (simp add: cyclic_def)
qed

lemma tree_heap_encoded:
  "stableStringify_heap 3 tree_heap (HRef 0) = Inr ''{\"list\":[1],\"name\":\"x\"}''"
  by code_simp

subsection \<open>On a tree the two encoders agree\<close>

text \<open>
  When the heap value spells out a tree and the stack has room enough, the encoder on
  the heap returns the string that \<open>stableStringify\<close> gives for the tree.
\<close>

lemma collect_all_Inr:
  assumes "list_all2 (\<lambda>x y. f x = Inr y) xs ys"
  shows "collect (map f xs) = Inr ys"
  using assms by (induction rule: list_all2_induct) simp_all

lemma uniform_depth:
  assumes "list_all2 (\<lambda>x y. \<exists>d0::nat. \<forall>d\<ge>d0. f d x = Inr (g y)) xs ys"
  shows "\<exists>d0::nat. \<forall>d\<ge>d0. list_all2 (\<lambda>x y. f d x = Inr (g y)) xs ys"
  using assms
proof (induction rule: list_all2_induct)
  case Nil
  then show ?case by simp
next
  case (Cons x xs y ys)
  from Cons.hyps(1) obtain d1 where d1: "\<forall>d\<ge>d1. f d x = Inr (g y)" by blast
  from Cons.IH obtain d2 where d2: "\<forall>d\<ge>d2. list_all2 (\<lambda>x y. f d x = Inr (g y)) xs ys" by blast
  have "\<forall>d\<ge>max d1 d2. list_all2 (\<lambda>x y. f d x = Inr (g y)) (x # xs) (y # ys)"
  proof (intro allI impI)
    fix d assume "max d1 d2 \<le> d"
    then have "d1 \<le> d" "d2 \<le> d" by simp_all
    with d1 d2 show "list_all2 (\<lambda>x y. f d x = Inr (g y)) (x # xs) (y # ys)" by simp
  qed
  then show ?case by blast
qed

lemma props_related:
  assumes "map fst hkvs = map fst kvs"
    and "list_all2 P (map snd hkvs) (map snd kvs)"
    and "k \<in> set (map fst kvs)"
  shows "P (get_hprop hkvs k) (get_prop kvs k)"
  using assms
proof (induction hkvs arbitrary: kvs)
  case Nil
  then show ?case by simp
next
  case (Cons hkv hkvs)
  from Cons.prems(1) obtain kv kvs' where kvs: "kvs = kv # kvs'" by (cases kvs) auto
  show ?case
  proof (cases "k = fst kv")
    case True
    with Cons.prems kvs show ?thesis
      by (cases hkv; cases kv) (simp add: get_hprop_def get_prop_def)
  next
    case False
    with Cons.prems kvs have "P (get_hprop hkvs k) (get_prop kvs' k)"
      by (intro Cons.IH) auto
    with False Cons.prems(1) kvs show ?thesis
      by (cases hkv; cases kv) (simp add: get_hprop_def get_prop_def)
  qed
qed

lemma tree_encoded_alike:
  assumes "represents h hv v"
  shows "\<exists>d0. \<forall>d\<ge>d0. stableStringify_heap d h hv = Inr (stableStringify v)"
  using assms
proof (induction rule: represents.induct)
  case rep_undefined
  have "\<forall>d\<ge>1. stableStringify_heap d h HUndefined = Inr (stableStringify JUndefined)"
    by (auto simp: Suc_le_eq gr0_conv_Suc)
  then show ?case by blast
next
  case rep_null
  have "\<forall>d\<ge>1. stableStringify_heap d h HNull = Inr (stableStringify JNull)"
    by (auto simp: Suc_le_eq gr0_conv_Suc)
  then show ?case by blast
next
  case (rep_bool b)
  have "\<forall>d\<ge>1. stableStringify_heap d h (HBool b) = Inr (stableStringify (JBool b))"
    by (auto simp: Suc_le_eq gr0_conv_Suc)
  then show ?case by blast
next
  case (rep_num n)
  have "\<forall>d\<ge>1. stableStringify_heap d h (HNum n) = Inr (stableStringify (JNum n))"
    by (auto simp: Suc_le_eq gr0_conv_Suc)
  then show ?case by blast
next
  case (rep_str s)
  have "\<forall>d\<ge>1. stableStringify_heap d h (HStr s) = Inr (stableStringify (JStr s))"
    by (auto simp: Suc_le_eq gr0_conv_Suc)
  then show ?case by blast
next
  case (rep_date a t)
  have "\<forall>d\<ge>2. stableStringify_heap d h (HRef a) = Inr (stableStringify (JDate t))"
  proof (intro allI impI)
    fix d :: nat
    assume "2 \<le> d"
    then obtain d' where d: "d = Suc (Suc d')" by (metis Suc_le_D numeral_2_eq_2 Suc_le_mono)
    with rep_date show "stableStringify_heap d h (HRef a) = Inr (stableStringify (JDate t))"
      by (cases t) simp_all
  qed
  then show ?case by blast
next
  case (rep_arr a hvs vs)
  from rep_arr(2) have "list_all2 (\<lambda>x y. \<exists>d0. \<forall>d\<ge>d0. stableStringify_heap d h x = Inr (stableStringify y)) hvs vs"
    by (rule list_all2_mono) simp
  from uniform_depth [OF this] obtain d0
    where d0: "\<forall>d\<ge>d0. list_all2 (\<lambda>x y. stableStringify_heap d h x = Inr (stableStringify y)) hvs vs"
    by blast
  have "\<forall>d\<ge>Suc d0. stableStringify_heap d h (HRef a) = Inr (stableStringify (JArr vs))"
  proof (intro allI impI)
    fix d :: nat
    assume "Suc d0 \<le> d"
    then obtain d' where d: "d = Suc d'" and d': "d0 \<le> d'" by (cases d) auto
    from d0 d' have "list_all2 (\<lambda>x y. stableStringify_heap d' h x = Inr y) hvs (map stableStringify vs)"
      by (simp add: list_all2_map2)
    from collect_all_Inr [OF this] rep_arr(1) d
    show "stableStringify_heap d h (HRef a) = Inr (stableStringify (JArr vs))" by simp
  qed
  then show ?case by blast
next
  case (rep_obj a hkvs kvs)
  let ?P = "\<lambda>x y. \<exists>d0. \<forall>d\<ge>d0. stableStringify_heap d h x = Inr (stableStringify y)"
  let ?keys = "sort (map fst kvs)"
  from rep_obj(3) have all: "list_all2 ?P (map snd hkvs) (map snd kvs)"
    by (rule list_all2_mono) simp
  have "list_all2 (\<lambda>k k'. \<exists>d0. \<forall>d\<ge>d0. stableStringify_heap d h (get_hprop hkvs k) =
            Inr (stableStringify (get_prop kvs k'))) ?keys ?keys"
  proof (rule list_all2_all_nthI)
    fix n assume "n < length ?keys"
    then have "?keys ! n \<in> set (map fst kvs)" by (metis nth_mem set_sort)
    from props_related [of hkvs kvs ?P, OF rep_obj(2) all this]
    show "\<exists>d0. \<forall>d\<ge>d0. stableStringify_heap d h (get_hprop hkvs (?keys ! n)) =
            Inr (stableStringify (get_prop kvs (?keys ! n)))" .
  qed simp
  from uniform_depth [of "\<lambda>d k. stableStringify_heap d h (get_hprop hkvs k)"
      "\<lambda>k. stableStringify (get_prop kvs k)", OF this]
  obtain d0 where d0: "\<forall>d\<ge>d0. list_all2 (\<lambda>k k'. stableStringify_heap d h (get_hprop hkvs k) =
            Inr (stableStringify (get_prop kvs k'))) ?keys ?keys"
    by blast
  have "\<forall>d\<ge>Suc d0. stableStringify_heap d h (HRef a) = Inr (stableStringify (JObj kvs))"
  proof (intro allI impI)
    fix d :: nat
    assume "Suc d0 \<le> d"
    then obtain d' where d: "d = Suc d'" and d': "d0 \<le> d'" by (cases d) auto
    let ?f = "\<lambda>k. case stableStringify_heap d' h (get_hprop hkvs k) of
                    Inl e \<Rightarrow> Inl e
                  | Inr s \<Rightarrow> Inr (JSON_stringify_string k @ '':'' @ s)"
    let ?g = "\<lambda>k. JSON_stringify_string k @ '':'' @ stableStringify (get_prop kvs k)"
    from d0 d' have "list_all2 (\<lambda>k k'. stableStringify_heap d' h (get_hprop hkvs k) =
            Inr (stableStringify (get_prop kvs k'))) ?keys ?keys" by blast
    then have "list_all2 (\<lambda>k y. ?f k = Inr y) ?keys (map ?g ?keys)"
      by (simp add: list_all2_map2 list_all2_same)
    from collect_all_Inr [OF this] rep_obj(1,2) d
    show "stableStringify_heap d h (HRef a) = Inr (stableStringify (JObj kvs))"
      by (simp add: Let_def)
  qed
  then show ?case by blast
qed

section \<open>Properties of appends that run at the same time\<close>

subsection \<open>A row that does not link to the row before it\<close>

lemma verify_step_link:
  assumes "0 < k" and "prev_hash (rows ! k) \<noteq> event_hash (rows ! (k - 1))"
  shows "prev_hash_link_broken (String_id (rows ! k)) (prev_hash (rows ! k))
           (event_hash (rows ! (k - 1))) \<in> set (snd (verify_step rows k st)) \<and>
         \<not> fst (verify_step rows k st)"
  using assms by (auto simp: verify_step_def Let_def)

lemma verify_link_broken:
  assumes "0 < k" and "k < length rows"
    and "prev_hash (rows ! k) \<noteq> event_hash (rows ! (k - 1))"
  shows "\<not> ok (verify rows) \<and>
         prev_hash_link_broken (String_id (rows ! k)) (prev_hash (rows ! k))
           (event_hash (rows ! (k - 1))) \<in> set (errors (verify rows))"
proof -
  define st where "st = fold (verify_step rows) [0..<k] (True, [])"
  from verify_step_link [OF assms(1,3), of st]
    fold_verify_keeps [of "verify_step rows k st" rows "[Suc k..<length rows]"]
  show ?thesis
    by (auto simp: verify_def upt_split_at [OF assms(2)] st_def)
qed

lemma verify_snoc_broken:
  assumes "rows \<noteq> []"
    and "verify rows = \<lparr>ok = True, count = length rows, errors = []\<rparr>"
    and "computed_hash r = event_hash r"
    and "prev_hash r \<noteq> event_hash (last rows)"
  shows "verify (rows @ [r]) =
           \<lparr>ok = False, count = Suc (length rows),
            errors = [prev_hash_link_broken (String_id r) (prev_hash r) (event_hash (last rows))]\<rparr>"
proof -
  from assms(2) have st: "fold (verify_step rows) [0..<length rows] (True, []) = (True, [])"
    by (simp add: verify_def Let_def prod_eq_iff)
  from assms(1) have l: "last rows = rows ! (length rows - 1)" by (simp add: last_conv_nth)
  from assms(1) have pos: "length rows \<noteq> 0" by simp
  show ?thesis
    using assms(3,4) pos
    by (simp add: verify_def fold_verify_append st verify_step_def l nth_append)
qed

subsection \<open>A call whose two statements run one after the other\<close>

text \<open>Such a call is the function \<open>appendLedgerEvent\<close>.\<close>

lemma run_serial:
  assumes "i < length (calls s)" and "call_phase (calls s ! i) = NotStarted"
  shows "table (run [i, i] s) =
           (case appendLedgerEvent (table s) (call_eventType (calls s ! i)) (call_payload (calls s ! i)) of
              Inl e \<Rightarrow> table s
            | Inr (r, rows') \<Rightarrow> rows') \<and>
         calls (run [i, i] s) =
           (calls s)[i := (calls s ! i)\<lparr>call_phase :=
              (case appendLedgerEvent (table s) (call_eventType (calls s ! i)) (call_payload (calls s ! i)) of
                 Inl e \<Rightarrow> Thrown e
               | Inr (r, rows') \<Rightarrow> Returned (eventHash r))\<rparr>]"
  using assms
  by (cases "table s")
    (auto simp: run_def step_def call_step_def appendLedgerEvent_def Let_def
          split: sum.splits)

lemma serial_keeps_verified:
  assumes "i < length (calls s)" and "call_phase (calls s ! i) = NotStarted"
    and "table s \<noteq> []" and "verify (table s) = \<lparr>ok = True, count = length (table s), errors = []\<rparr>"
    and "distinct_keys (call_payload (calls s ! i))"
    and "defined_properties (call_payload (calls s ! i))"
  shows "table (run [i, i] s) \<noteq> [] \<and>
         verify (table (run [i, i] s)) =
           \<lparr>ok = True, count = length (table (run [i, i] s)), errors = []\<rparr> \<and>
         length (calls (run [i, i] s)) = length (calls s) \<and>
         (\<forall>j. j \<noteq> i \<longrightarrow> calls (run [i, i] s) ! j = calls s ! j)"
proof (cases "appendLedgerEvent (table s) (call_eventType (calls s ! i)) (call_payload (calls s ! i))")
  case (Inl e)
  with run_serial [OF assms(1,2)] assms(3,4) show ?thesis by simp
next
  case (Inr p)
  obtain r rows' where p: "p = (r, rows')" by (cases p)
  from append_keeps_verified [OF assms(3,4) Inr [unfolded p] assms(5,6)]
    run_serial [OF assms(1,2)] Inr p
  show ?thesis by simp
qed

subsection \<open>Two calls that read before either inserts\<close>

lemma run_append: "run (xs @ ys) s = run ys (run xs s)"
  by (simp add: run_def)

lemma interleaved:
  assumes i: "i < length (calls s)" and j: "j < length (calls s)" and ne: "i \<noteq> j"
    and ci: "calls s ! i = \<lparr>call_eventType = t1, call_payload = JObj kvs1, call_phase = NotStarted\<rparr>"
    and cj: "calls s ! j = \<lparr>call_eventType = t2, call_payload = JObj kvs2, call_phase = NotStarted\<rparr>"
    and rows: "table s \<noteq> []"
    and p1: "nul_free (JObj kvs1)" and p2: "nul_free (JObj kvs2)"
    and h1: "sha256Hex (canonical (event_hash (last (table s))) t1 (JObj kvs1))
               \<notin> set (map event_hash (table s))"
    and h2: "sha256Hex (canonical (event_hash (last (table s))) t2 (JObj kvs2))
               \<notin> set (map event_hash (table s))"
    and h12: "sha256Hex (canonical (event_hash (last (table s))) t1 (JObj kvs1)) \<noteq>
              sha256Hex (canonical (event_hash (last (table s))) t2 (JObj kvs2))"
  shows "table (run [i, j, i, j] s) =
           table s @
             [\<lparr>event_id = next_id (table s), event_type = t1, payload = jsonb (JObj kvs1),
               prev_hash = event_hash (last (table s)),
               event_hash = sha256Hex (canonical (event_hash (last (table s))) t1 (JObj kvs1))\<rparr>,
              \<lparr>event_id = Suc (next_id (table s)), event_type = t2, payload = jsonb (JObj kvs2),
               prev_hash = event_hash (last (table s)),
               event_hash = sha256Hex (canonical (event_hash (last (table s))) t2 (JObj kvs2))\<rparr>]"
proof -
  define L where "L = event_hash (last (table s))"
  define q1 where "q1 = jsonb (JObj kvs1)"
  define q2 where "q2 = jsonb (JObj kvs2)"
  define s1 where "s1 = step i s"
  define s2 where "s2 = step j s1"
  define s3 where "s3 = step i s2"
  from rows obtain x xs where xs: "table s = x # xs" by (cases "table s") auto
  have s1: "table s1 = table s" "calls s1 = (calls s)[i := (calls s ! i)\<lparr>call_phase := AwaitingInsert L\<rparr>]"
    using i ci xs by (simp_all add: s1_def step_def call_step_def L_def)
  have s2: "table s2 = table s"
    "calls s2 = (calls s1)[j := (calls s ! j)\<lparr>call_phase := AwaitingInsert L\<rparr>]"
    using j cj xs ne s1 by (simp_all add: s2_def step_def call_step_def L_def)
  have ci2: "calls s2 ! i = \<lparr>call_eventType = t1, call_payload = JObj kvs1, call_phase = AwaitingInsert L\<rparr>"
    using i j ne ci by (simp add: s2 s1)
  have cj2: "calls s2 ! j = \<lparr>call_eventType = t2, call_payload = JObj kvs2, call_phase = AwaitingInsert L\<rparr>"
    using i j ne cj by (simp add: s2 s1)
  have len2: "length (calls s2) = length (calls s)" by (simp add: s2 s1)
  have s3t: "table s3 = table s @
      [\<lparr>event_id = next_id (table s), event_type = t1, payload = q1, prev_hash = L,
        event_hash = sha256Hex (canonical L t1 (JObj kvs1))\<rparr>]"
    using i len2 ci2 p1 h1 s2(1)
    by (simp add: s3_def step_def call_step_def insert_ledger_event_object Let_def L_def q1_def
        del: jsonb.simps nul_free.simps)
  have cj3: "calls s3 ! j = \<lparr>call_eventType = t2, call_payload = JObj kvs2, call_phase = AwaitingInsert L\<rparr>"
    using i j ne cj2 len2 by (simp add: s3_def step_def Let_def)
  have len3: "length (calls s3) = length (calls s)"
    using len2 by (simp add: s3_def step_def Let_def)
  have nid: "next_id (table s3) = Suc (next_id (table s))"
    by (simp add: s3t next_id_def)
  have "table (step j s3) = table s3 @
      [\<lparr>event_id = Suc (next_id (table s)), event_type = t2, payload = q2, prev_hash = L,
        event_hash = sha256Hex (canonical L t2 (JObj kvs2))\<rparr>]"
    using j len3 cj3 p2 h2 h12 nid
    by (simp add: step_def call_step_def insert_ledger_event_object Let_def L_def s3t q2_def
        del: jsonb.simps nul_free.simps)
  then show ?thesis
    by (simp add: run_def s3t L_def q1_def q2_def del: jsonb.simps flip: s1_def s2_def s3_def)
qed
section \<open>The digests of the small ledgers\<close>

text \<open>The hashes, computed from the definition of SHA-256.\<close>

lemma genesis_hash: "event_hash genesis = genesis_digest"
  unfolding genesis_def genesis_literal_def genesis_digest_def ledger_event.simps
  by code_simp

lemma refresh_hash:
  "sha256Hex (canonical genesis_digest ''CMD_LOCATION_REFRESH'' refresh_payload) = refresh_digest"
  unfolding genesis_digest_def refresh_payload_def refresh_digest_def
  by code_simp

lemma other_hash:
  "sha256Hex (canonical genesis_digest ''CMD_LOCATION_REFRESH'' other_payload) = other_digest"
  unfolding genesis_digest_def other_payload_def other_digest_def
  by code_simp

lemma add_hash:
  "sha256Hex (canonical genesis_digest ''CMD_LOCATION_ADD'' add_payload) = add_digest"
  unfolding genesis_digest_def add_payload_def add_digest_def
  by code_simp

lemma undefined_hash:
  "sha256Hex (canonical genesis_digest ''CMD_LOCATION_REFRESH'' undefined_payload) =
   undefined_digest"
  unfolding genesis_digest_def undefined_payload_def undefined_digest_def
  by code_simp

lemma empty_hash:
  "sha256Hex (canonical genesis_digest ''CMD_LOCATION_REFRESH'' (JObj [])) = empty_digest"
  unfolding genesis_digest_def empty_digest_def
  by code_simp

lemma decimal_1: "decimal 1 = ''1''"
  by code_simp

lemma decimal_2: "decimal 2 = ''2''"
  by code_simp

lemma decimal_3: "decimal 3 = ''3''"
  by code_simp

lemma digests_differ:
  "refresh_digest \<noteq> genesis_digest" "other_digest \<noteq> genesis_digest" "refresh_digest \<noteq> other_digest"
  by (simp_all add: genesis_digest_def refresh_digest_def other_digest_def)

section \<open>The claims about the ledger\<close>

subsection \<open>The small ledgers\<close>

lemma refresh_payload_plain:
  "jsonb refresh_payload = refresh_payload" "nul_free refresh_payload"
  "distinct_keys refresh_payload" "defined_properties refresh_payload"
  by (simp_all add: refresh_payload_def jsonb_order_def parsed_order_def array_index_def)

lemma refresh_append:
  "appendLedgerEvent [genesis] ''CMD_LOCATION_REFRESH'' refresh_payload =
   Inr (\<lparr>prevHash = genesis_digest, eventHash = refresh_digest\<rparr>, refresh_ledger)"
proof -
  have "refresh_digest \<noteq> genesis_digest"
    by (simp add: genesis_digest_def refresh_digest_def)
  moreover have "event_id genesis = 1" by (simp add: genesis_def)
  moreover have "insert_ledger_event [genesis] ''CMD_LOCATION_REFRESH'' refresh_payload
      genesis_digest refresh_digest =
    (if refresh_digest \<in> set (map event_hash [genesis]) then Inl UniqueViolation
     else Inr ([genesis] @
        [\<lparr>event_id = next_id [genesis], event_type = ''CMD_LOCATION_REFRESH'',
          payload = refresh_payload, prev_hash = genesis_digest,
          event_hash = refresh_digest\<rparr>]))"
    using refresh_payload_plain(1,2)
    by (simp add: refresh_payload_def insert_ledger_event_object del: jsonb.simps nul_free.simps)
  ultimately show ?thesis
    by (simp add: appendLedgerEvent_def genesis_hash refresh_hash
        refresh_ledger_def next_id_def Let_def)
qed

lemma add_payload_plain:
  "jsonb add_payload = add_stored" "nul_free add_payload"
  "distinct_keys add_payload" "defined_properties add_payload"
  by (simp_all add: add_payload_def add_stored_def jsonb_key_def utf8_def jsonb_order_def
      parsed_order_def array_index_def)

lemma add_append:
  "appendLedgerEvent [genesis] ''CMD_LOCATION_ADD'' add_payload =
   Inr (\<lparr>prevHash = genesis_digest, eventHash = add_digest\<rparr>, add_ledger)"
proof -
  have "add_digest \<noteq> genesis_digest"
    by (simp add: genesis_digest_def add_digest_def)
  moreover have "event_id genesis = 1" by (simp add: genesis_def)
  moreover have "insert_ledger_event [genesis] ''CMD_LOCATION_ADD'' add_payload
      genesis_digest add_digest =
    (if add_digest \<in> set (map event_hash [genesis]) then Inl UniqueViolation
     else Inr ([genesis] @
        [\<lparr>event_id = next_id [genesis], event_type = ''CMD_LOCATION_ADD'',
          payload = add_stored, prev_hash = genesis_digest,
          event_hash = add_digest\<rparr>]))"
    using add_payload_plain(1,2)
    by (simp add: add_payload_def insert_ledger_event_object del: jsonb.simps nul_free.simps)
  ultimately show ?thesis
    by (simp add: appendLedgerEvent_def genesis_hash add_hash
        add_ledger_def next_id_def Let_def)
qed

lemma two_rows_verified:
  assumes "computed_hash r = event_hash r" and "prev_hash r = event_hash genesis"
  shows "verify [genesis, r] = \<lparr>ok = True, count = 2, errors = []\<rparr>"
  using verify_snoc [of "[genesis]" r] verify_genesis assms by simp

lemma verify_refresh_ledger:
  "verify refresh_ledger = \<lparr>ok = True, count = 2, errors = []\<rparr>"
  using append_keeps_verified [OF _ _ refresh_append refresh_payload_plain(3,4)] verify_genesis
  by simp

subsection \<open>C1: chain integrity\<close>

text \<open>
  C1, as the code has it. The bootstrap leaves the genesis row in the table, and the
  audit counts every row it scans. After \<open>n\<close> appends that all succeeded, one after the
  other, on the bootstrapped ledger, the audit returns \<^verbatim>\<open>ok = true\<close>, an empty list of
  errors and \<^verbatim>\<open>count = n + 1\<close>: the \<open>n\<close> appended rows and the genesis row.

  The audit recomputes each hash from the payload the column gives back, which is not
  the object the append hashed: its keys come in another order at every depth. The
  hashes agree because the encoder sorts the keys. They agree for the payloads in which
  no property holds \<^verbatim>\<open>undefined\<close>: such a property is written as \<^verbatim>\<open>null\<close> by the
  encoder and left out by the column. (The keys of a JavaScript object are distinct.)
\<close>

theorem chain_integrity:
  assumes "append_all (bootstrap []) evs = Inr rows"
    and "\<forall>ev\<in>set evs. distinct_keys (snd ev) \<and> defined_properties (snd ev)"
  shows "verify rows = \<lparr>ok = True, count = length evs + 1, errors = []\<rparr>"
  using append_all_verified [of "[genesis]" evs rows] verify_genesis assms
  by (simp add: bootstrap_def)

text \<open>
  One append of \<^verbatim>\<open>{ location: loc }\<close>: the row stored holds the keys of \<^verbatim>\<open>loc\<close> in the
  order \<^verbatim>\<open>id\<close>, \<^verbatim>\<open>lat\<close>, \<^verbatim>\<open>name\<close>, the append hashed them in the order \<^verbatim>\<open>id\<close>, \<^verbatim>\<open>name\<close>,
  \<^verbatim>\<open>lat\<close>, and the audit accepts the two rows.
\<close>

theorem chain_integrity_witness:
  "append_all (bootstrap []) [(''CMD_LOCATION_ADD'', add_payload)] = Inr add_ledger \<and>
   payload (add_ledger ! 1) = add_stored \<and> add_stored \<noteq> add_payload \<and>
   distinct_keys add_payload \<and> defined_properties add_payload \<and>
   verify add_ledger = \<lparr>ok = True, count = 2, errors = []\<rparr>"
proof -
  have run: "append_all (bootstrap []) [(''CMD_LOCATION_ADD'', add_payload)] = Inr add_ledger"
    by (simp add: bootstrap_def add_append)
  have plain: "\<forall>ev\<in>set [(''CMD_LOCATION_ADD'', add_payload)].
      distinct_keys (snd ev) \<and> defined_properties (snd ev)"
    using add_payload_plain(3,4) by simp
  have "payload (add_ledger ! 1) = add_stored" by (simp add: add_ledger_def)
  moreover have "add_stored \<noteq> add_payload" by (simp add: add_stored_def add_payload_def)
  ultimately show ?thesis
    using chain_integrity [OF run plain] run add_payload_plain(3,4) by simp
qed

text \<open>
  The claim as the spec states it has \<^verbatim>\<open>count = n\<close>. With no append at all the audit of
  the bootstrapped ledger counts one row, and after one append it counts two.
\<close>

theorem chain_integrity_counterexample:
  "append_all (bootstrap []) [] = Inr [genesis] \<and>
   count (verify [genesis]) = 1 \<and>
   append_all (bootstrap []) [(''CMD_LOCATION_REFRESH'', refresh_payload)] = Inr refresh_ledger \<and>
   count (verify refresh_ledger) = 2"
  by (simp add: bootstrap_def refresh_append count_verify refresh_ledger_def)

text \<open>
  The appends of the theorem are those of payloads in which no property holds
  \<^verbatim>\<open>undefined\<close>. An append of \<^verbatim>\<open>{ locationId: undefined }\<close> succeeds, and the audit
  rejects the ledger it leaves: the stored hash is that of \<^verbatim>\<open>{"locationId":null}\<close>, the
  column gives back \<^verbatim>\<open>{}\<close>, and the hash recomputed from it is another.
\<close>

lemma undefined_property_breaks_chain:
  "append_all (bootstrap []) [(''CMD_LOCATION_REFRESH'', undefined_payload)] =
     Inr undefined_ledger \<and>
   distinct_keys undefined_payload \<and> \<not> defined_properties undefined_payload \<and>
   verify undefined_ledger =
     \<lparr>ok = False, count = 2, errors = [hash_mismatch ''2'' undefined_digest empty_digest]\<rparr>"
proof -
  let ?r = "\<lparr>event_id = 2, event_type = ''CMD_LOCATION_REFRESH'', payload = JObj [],
             prev_hash = genesis_digest, event_hash = undefined_digest\<rparr>"
  have "undefined_digest \<noteq> genesis_digest"
    by (simp add: genesis_digest_def undefined_digest_def)
  moreover have "event_id genesis = 1" by (simp add: genesis_def)
  moreover have "insert_ledger_event [genesis] ''CMD_LOCATION_REFRESH'' undefined_payload
      genesis_digest undefined_digest =
    (if undefined_digest \<in> set (map event_hash [genesis]) then Inl UniqueViolation
     else Inr ([genesis] @ [?r]))"
    by (simp add: undefined_payload_def insert_ledger_event_def next_id_def genesis_def
        jsonb_order_def parsed_order_def)
  ultimately have "appendLedgerEvent [genesis] ''CMD_LOCATION_REFRESH'' undefined_payload =
      Inr (\<lparr>prevHash = genesis_digest, eventHash = undefined_digest\<rparr>, undefined_ledger)"
    by (simp add: appendLedgerEvent_def genesis_hash undefined_hash undefined_ledger_def Let_def)
  then have run: "append_all (bootstrap []) [(''CMD_LOCATION_REFRESH'', undefined_payload)] =
      Inr undefined_ledger"
    by (simp add: bootstrap_def)
  have c: "computed_hash ?r \<noteq> event_hash ?r"
    by (simp add: computed_hash_def empty_hash empty_digest_def undefined_digest_def)
  have d: "prev_hash ?r = event_hash (last [genesis])" by (simp add: genesis_hash)
  have "verify ([genesis] @ [?r]) =
      \<lparr>ok = False, count = Suc (length [genesis]),
       errors = [hash_mismatch (String_id ?r) (event_hash ?r) (computed_hash ?r)]\<rparr>"
    by (rule verify_snoc_mismatch [OF _ _ c d]) (simp_all add: verify_genesis)
  then have v: "verify undefined_ledger =
      \<lparr>ok = False, count = 2, errors = [hash_mismatch ''2'' undefined_digest empty_digest]\<rparr>"
    by (simp add: undefined_ledger_def String_id_def decimal_2 computed_hash_def empty_hash)
  from run v show ?thesis by (simp add: undefined_payload_def)
qed

subsection \<open>C2: tamper detection\<close>

text \<open>
  C2, as the code has it. Take a ledger of \<open>n\<close> rows that the audit accepts, and a row
  index \<open>i\<close>. If the stored \<^verbatim>\<open>event_hash\<close> of row \<open>i\<close> is changed to another string, or
  its stored \<^verbatim>\<open>payload\<close> is changed to one for which the recomputed hash is another,
  then the audit returns \<^verbatim>\<open>ok = false\<close>, its errors hold a \<^verbatim>\<open>hash_mismatch\<close> entry for
  row \<open>i\<close>, every \<^verbatim>\<open>hash_mismatch\<close> entry carries the stored hash and the recomputed
  hash of its row, and the audit scans all rows: \<^verbatim>\<open>count = n\<close>. The audit is a total
  function: it returns a result on every table.
\<close>

theorem tamper_detection:
  assumes "ok (verify rows)" and "i < length rows"
    and "rows' = set_event_hash rows i h \<and> h \<noteq> event_hash (rows ! i) \<or>
         rows' = set_payload rows i p \<and>
           computed_hash ((rows ! i)\<lparr>payload := p\<rparr>) \<noteq> computed_hash (rows ! i)"
  shows "\<not> ok (verify rows') \<and>
         hash_mismatch (String_id (rows' ! i)) (event_hash (rows' ! i)) (computed_hash (rows' ! i))
           \<in> set (errors (verify rows')) \<and>
         count (verify rows') = length rows \<and>
         (\<forall>d x y. hash_mismatch d x y \<in> set (errors (verify rows')) \<longrightarrow>
            (\<exists>j<length rows'. d = String_id (rows' ! j) \<and> x = event_hash (rows' ! j) \<and>
               y = computed_hash (rows' ! j)))"
proof -
  from assms(1,2) have valid: "computed_hash (rows ! i) = event_hash (rows ! i)"
    using verify_mismatch [of i rows] by blast
  from assms(3) have len: "length rows' = length rows"
    by (auto simp: set_event_hash_def set_payload_def)
  from assms(2,3) valid have "computed_hash (rows' ! i) \<noteq> event_hash (rows' ! i)"
    by (auto simp: set_event_hash_def set_payload_def computed_hash_def)
  with assms(2) len
  have "\<not> ok (verify rows') \<and> mismatch_of (rows' ! i) \<in> set (errors (verify rows'))"
    using verify_mismatch [of i rows'] by simp
  then show ?thesis
    using verify_mismatch_origin [of _ _ _ rows'] len
    by (simp add: mismatch_of_def count_verify)
qed

theorem tamper_detection_witness:
  "ok (verify refresh_ledger) \<and>
   \<not> ok (verify (set_event_hash refresh_ledger 0 ''00'')) \<and>
   hash_mismatch ''1'' ''00'' genesis_digest
     \<in> set (errors (verify (set_event_hash refresh_ledger 0 ''00''))) \<and>
   count (verify (set_event_hash refresh_ledger 0 ''00'')) = 2 \<and>
   \<not> ok (verify (set_payload refresh_ledger 1 other_payload)) \<and>
   hash_mismatch ''2'' refresh_digest other_digest
     \<in> set (errors (verify (set_payload refresh_ledger 1 other_payload))) \<and>
   count (verify (set_payload refresh_ledger 1 other_payload)) = 2"
proof -
  define L where "L = set_event_hash refresh_ledger 0 ''00''"
  define M where "M = set_payload refresh_ledger 1 other_payload"
  have a: "ok (verify refresh_ledger)" by (simp add: verify_refresh_ledger)
  have b: "0 < length refresh_ledger" "1 < length refresh_ledger"
    by (simp_all add: refresh_ledger_def)
  have len: "length refresh_ledger = 2" by (simp add: refresh_ledger_def)
  have c: "L = set_event_hash refresh_ledger 0 ''00'' \<and> ''00'' \<noteq> event_hash (refresh_ledger ! 0)"
    by (simp add: L_def refresh_ledger_def genesis_hash genesis_digest_def)
  have d: "String_id (L ! 0) = ''1''"
    by (simp add: L_def set_event_hash_def refresh_ledger_def String_id_def genesis_def decimal_1)
  have e: "computed_hash (L ! 0) = genesis_digest"
    using genesis_computed genesis_hash
    by (simp add: L_def set_event_hash_def refresh_ledger_def computed_hash_def)
  have f: "event_hash (L ! 0) = ''00''"
    by (simp add: L_def set_event_hash_def refresh_ledger_def)
  from tamper_detection [OF a b(1) disjI1 [OF c]]
  have t1: "\<not> ok (verify L)"
    and t2: "hash_mismatch (String_id (L ! 0)) (event_hash (L ! 0)) (computed_hash (L ! 0))
               \<in> set (errors (verify L))"
    and t3: "count (verify L) = length refresh_ledger"
    by blast+
  from t2 have t2': "hash_mismatch ''1'' ''00'' genesis_digest \<in> set (errors (verify L))"
    by (simp only: d e f)
  have m: "M = set_payload refresh_ledger 1 other_payload \<and>
      computed_hash ((refresh_ledger ! 1)\<lparr>payload := other_payload\<rparr>) \<noteq>
        computed_hash (refresh_ledger ! 1)"
    using digests_differ
    by (simp add: M_def refresh_ledger_def computed_hash_def refresh_hash other_hash)
  have md: "String_id (M ! 1) = ''2''"
    by (simp add: M_def set_payload_def refresh_ledger_def String_id_def decimal_2)
  have me: "computed_hash (M ! 1) = other_digest"
    by (simp add: M_def set_payload_def refresh_ledger_def computed_hash_def other_hash)
  have mf: "event_hash (M ! 1) = refresh_digest"
    by (simp add: M_def set_payload_def refresh_ledger_def)
  from tamper_detection [OF a b(2) disjI2 [OF m]]
  have u1: "\<not> ok (verify M)"
    and u2: "hash_mismatch (String_id (M ! 1)) (event_hash (M ! 1)) (computed_hash (M ! 1))
               \<in> set (errors (verify M))"
    and u3: "count (verify M) = length refresh_ledger"
    by blast+
  from u2 have u2': "hash_mismatch ''2'' refresh_digest other_digest \<in> set (errors (verify M))"
    by (simp only: md me mf)
  from a t1 t2' t3 u1 u2' u3 len show ?thesis
    unfolding L_def M_def by simp
qed

text \<open>
  The claim as the spec states it holds for every change of the payload. The encoder
  writes \<^verbatim>\<open>null\<close> for \<^verbatim>\<open>null\<close> and for a number that is not finite, so a stored
  \<^verbatim>\<open>null\<close> can be replaced by a number too large for a double (which the audit reads
  as \<^verbatim>\<open>Infinity\<close>) and the recomputed hash is the same: the audit accepts the ledger
  before and after the change.
\<close>

theorem tamper_detection_counterexample:
  "verify decision_ledger = \<lparr>ok = True, count = 2, errors = []\<rparr> \<and>
   set_payload decision_ledger 1 (decision_payload (JNum PosInf)) \<noteq> decision_ledger \<and>
   verify (set_payload decision_ledger 1 (decision_payload (JNum PosInf))) =
     \<lparr>ok = True, count = 2, errors = []\<rparr>"
proof -
  have same: "canonical h t (decision_payload (JNum PosInf)) = canonical h t (decision_payload JNull)"
    for h t
    by (simp add: canonical_def decision_payload_def get_prop_def)
  have "verify decision_ledger = \<lparr>ok = True, count = 2, errors = []\<rparr>"
    unfolding decision_ledger_def
    by (rule two_rows_verified) (simp_all add: computed_hash_def)
  moreover have "verify (set_payload decision_ledger 1 (decision_payload (JNum PosInf))) =
      \<lparr>ok = True, count = 2, errors = []\<rparr>"
    unfolding decision_ledger_def set_payload_def
    by (simp, rule two_rows_verified) (simp_all add: computed_hash_def same)
  moreover have "set_payload decision_ledger 1 (decision_payload (JNum PosInf)) \<noteq> decision_ledger"
    by (simp add: decision_ledger_def set_payload_def decision_payload_def)
  ultimately show ?thesis by simp
qed

subsection \<open>C3: what an append reads, computes, stores and returns\<close>

text \<open>
  C3, as the code has it. An append of an object succeeds exactly when the ledger is
  not empty, the column takes the payload (no string or key of it has the code point
  zero) and the new hash is not yet in the table. An append that succeeds has read the
  \<^verbatim>\<open>event_hash\<close> of the last row as \<^verbatim>\<open>prevHash\<close>, has computed \<^verbatim>\<open>eventHash\<close> as the
  SHA-256 of \<^verbatim>\<open>prevHash\<close>, a newline and the canonical encoding of
  \<^verbatim>\<open>{event_type, payload}\<close>, has added exactly one row with that \<^verbatim>\<open>prev_hash\<close> and
  \<^verbatim>\<open>event_hash\<close> and with the payload as the column gives it back, and returns that
  \<^verbatim>\<open>eventHash\<close> (the worker's copy returns it alone). On an empty ledger the append
  throws a \<^verbatim>\<open>TypeError\<close>: the code of \<^verbatim>\<open>appendLedgerEvent\<close> has no sentinel, the \<^verbatim>\<open>"0"\<close>
  is the \<^verbatim>\<open>prev_hash\<close> of the genesis row that the bootstrap inserts. With a payload
  that is \<^verbatim>\<open>null\<close> or \<^verbatim>\<open>undefined\<close> the insert fails on a ledger that is not empty.
\<close>

theorem appendLedgerEvent_spec:
  "((\<exists>res rows'. appendLedgerEvent rows eventType (JObj kvs) = Inr (res, rows')) \<longleftrightarrow>
      rows \<noteq> [] \<and> nul_free (JObj kvs) \<and>
      sha256Hex (canonical (event_hash (last rows)) eventType (JObj kvs))
        \<notin> set (map event_hash rows)) \<and>
   (\<forall>res rows'. appendLedgerEvent rows eventType payloadObj = Inr (res, rows') \<longrightarrow>
      prevHash res = event_hash (last rows) \<and>
      eventHash res =
        sha256Hex (prevHash res @ ''\<newline>'' @
          stableStringify (JObj [(''event_type'', JStr eventType), (''payload'', payloadObj)])) \<and>
      rows' = rows @ [\<lparr>event_id = next_id rows, event_type = eventType,
                       payload = jsonb payloadObj,
                       prev_hash = prevHash res, event_hash = eventHash res\<rparr>] \<and>
      appendLedgerEvent_worker rows eventType payloadObj = Inr (eventHash res, rows')) \<and>
   (rows = [] \<longrightarrow> appendLedgerEvent rows eventType payloadObj = Inl TypeError) \<and>
   (rows \<noteq> [] \<and> (payloadObj = JNull \<or> payloadObj = JUndefined) \<longrightarrow>
      appendLedgerEvent rows eventType payloadObj = Inl NotNullViolation)"
proof (intro conjI allI impI)
  show "(\<exists>res rows'. appendLedgerEvent rows eventType (JObj kvs) = Inr (res, rows')) \<longleftrightarrow>
      rows \<noteq> [] \<and> nul_free (JObj kvs) \<and>
      sha256Hex (canonical (event_hash (last rows)) eventType (JObj kvs))
        \<notin> set (map event_hash rows)"
    by (auto simp: appendLedgerEvent_def insert_ledger_event_object Let_def
             simp del: nul_free.simps jsonb.simps
             split: list.splits if_splits)
next
  fix res rows'
  assume a: "appendLedgerEvent rows eventType payloadObj = Inr (res, rows')"
  from appendLedgerEvent_Inr [OF a]
  show "prevHash res = event_hash (last rows)"
    and "eventHash res =
        sha256Hex (prevHash res @ ''\<newline>'' @
          stableStringify (JObj [(''event_type'', JStr eventType), (''payload'', payloadObj)]))"
    and "rows' = rows @ [\<lparr>event_id = next_id rows, event_type = eventType,
                       payload = jsonb payloadObj,
                       prev_hash = prevHash res, event_hash = eventHash res\<rparr>]"
    by (simp_all add: canonical_def)
  from a show "appendLedgerEvent_worker rows eventType payloadObj = Inr (eventHash res, rows')"
    by (simp add: appendLedgerEvent_worker_def)
next
  assume "rows = []"
  then show "appendLedgerEvent rows eventType payloadObj = Inl TypeError"
    by (simp add: appendLedgerEvent_def)
next
  assume "rows \<noteq> [] \<and> (payloadObj = JNull \<or> payloadObj = JUndefined)"
  then show "appendLedgerEvent rows eventType payloadObj = Inl NotNullViolation"
    by (auto simp: appendLedgerEvent_def insert_ledger_event_def Let_def split: list.splits)
qed

theorem appendLedgerEvent_spec_witness:
  "appendLedgerEvent [genesis] ''CMD_LOCATION_REFRESH'' refresh_payload =
     Inr (\<lparr>prevHash = genesis_digest, eventHash = refresh_digest\<rparr>, refresh_ledger) \<and>
   appendLedgerEvent_worker [genesis] ''CMD_LOCATION_REFRESH'' refresh_payload =
     Inr (refresh_digest, refresh_ledger) \<and>
   event_hash (last [genesis]) = genesis_digest \<and>
   [genesis] \<noteq> [] \<and>
   appendLedgerEvent [genesis] ''CMD_LOCATION_REFRESH'' JNull = Inl NotNullViolation"
  using appendLedgerEvent_spec [of "[genesis]" "''CMD_LOCATION_REFRESH''" _ refresh_payload]
    appendLedgerEvent_spec [of "[genesis]" "''CMD_LOCATION_REFRESH''" _ JNull]
    refresh_append genesis_hash
  by simp

text \<open>
  The claim as the spec states it has the append use the sentinel \<^verbatim>\<open>"0"\<close> on an empty
  ledger. On the empty table the append throws and stores nothing.
\<close>

theorem appendLedgerEvent_sentinel_counterexample:
  "appendLedgerEvent [] ''CMD_LOCATION_REFRESH'' refresh_payload = Inl TypeError \<and>
   appendLedgerEvent_worker [] ''CMD_LOCATION_REFRESH'' refresh_payload = Inl TypeError"
  by (simp add: appendLedgerEvent_def appendLedgerEvent_worker_def)
section \<open>The claims about the decision rules\<close>

subsection \<open>C5: the thresholds and the classification\<close>

text \<open>
  C5, as the code has it. Whatever the other two inputs and the locale are:
  \<^verbatim>\<open>rain1hMm = 19.999\<close> matches the rule \<^verbatim>\<open>RAIN_8MM_1H\<close> (\<^verbatim>\<open>ALERT\<close>) and not
  \<^verbatim>\<open>RAIN_20MM_1H\<close>, \<^verbatim>\<open>7.999\<close> matches no rain rule and \<^verbatim>\<open>20\<close> matches
  \<^verbatim>\<open>RAIN_20MM_1H\<close> (\<^verbatim>\<open>CRITICAL\<close>); \<^verbatim>\<open>windMs = 11.999\<close> matches no wind rule, \<^verbatim>\<open>12\<close>
  matches \<^verbatim>\<open>WIND_12MS\<close> (\<^verbatim>\<open>ALERT\<close>) and \<^verbatim>\<open>20\<close> matches \<^verbatim>\<open>WIND_20MS\<close>
  (\<^verbatim>\<open>CRITICAL\<close>); \<^verbatim>\<open>tempC = 2\<close> matches \<^verbatim>\<open>TEMP_2C\<close> (\<^verbatim>\<open>ALERT\<close>), \<^verbatim>\<open>2.1\<close> matches
  no heat rule and no cold rule, \<^verbatim>\<open>33\<close> matches \<^verbatim>\<open>TEMP_33C\<close> (\<^verbatim>\<open>ALERT\<close>), \<^verbatim>\<open>38\<close>
  matches \<^verbatim>\<open>TEMP_38C\<close> (\<^verbatim>\<open>CRITICAL\<close>) and \<^verbatim>\<open>-3\<close> matches \<^verbatim>\<open>TEMP_-3C\<close>
  (\<^verbatim>\<open>CRITICAL\<close>). The classification is \<^verbatim>\<open>CRITICAL\<close> if a matched rule is
  \<^verbatim>\<open>CRITICAL\<close>, else \<^verbatim>\<open>ALERT\<close> if one is \<^verbatim>\<open>ALERT\<close>, else \<^verbatim>\<open>NORMAL\<close>. The input
  \<^verbatim>\<open>{tempC: 25, windMs: 25, rain1hMm: 0}\<close> gives \<^verbatim>\<open>CRITICAL\<close> with the one rule
  \<^verbatim>\<open>WIND_20MS\<close>.
\<close>

theorem decideRisk_boundaries:
  "RAIN_8MM_1H \<in> matched lc (inp\<lparr>rain1hMm := RNum (Fin 19999 (- 3))\<rparr>) \<and>
   RAIN_20MM_1H \<notin> matched lc (inp\<lparr>rain1hMm := RNum (Fin 19999 (- 3))\<rparr>) \<and>
   RAIN_8MM_1H \<notin> matched lc (inp\<lparr>rain1hMm := RNum (Fin 7999 (- 3))\<rparr>) \<and>
   RAIN_20MM_1H \<notin> matched lc (inp\<lparr>rain1hMm := RNum (Fin 7999 (- 3))\<rparr>) \<and>
   RAIN_20MM_1H \<in> matched lc (inp\<lparr>rain1hMm := RNum (Fin 20 0)\<rparr>) \<and>
   WIND_12MS \<notin> matched lc (inp\<lparr>windMs := RNum (Fin 11999 (- 3))\<rparr>) \<and>
   WIND_20MS \<notin> matched lc (inp\<lparr>windMs := RNum (Fin 11999 (- 3))\<rparr>) \<and>
   WIND_12MS \<in> matched lc (inp\<lparr>windMs := RNum (Fin 12 0)\<rparr>) \<and>
   WIND_20MS \<in> matched lc (inp\<lparr>windMs := RNum (Fin 20 0)\<rparr>) \<and>
   TEMP_2C \<in> matched lc (inp\<lparr>tempC := RNum (Fin 2 0)\<rparr>) \<and>
   TEMP_2C \<notin> matched lc (inp\<lparr>tempC := RNum (Fin 21 (- 1))\<rparr>) \<and>
   TEMP_m3C \<notin> matched lc (inp\<lparr>tempC := RNum (Fin 21 (- 1))\<rparr>) \<and>
   TEMP_33C \<notin> matched lc (inp\<lparr>tempC := RNum (Fin 21 (- 1))\<rparr>) \<and>
   TEMP_38C \<notin> matched lc (inp\<lparr>tempC := RNum (Fin 21 (- 1))\<rparr>) \<and>
   TEMP_33C \<in> matched lc (inp\<lparr>tempC := RNum (Fin 33 0)\<rparr>) \<and>
   TEMP_38C \<in> matched lc (inp\<lparr>tempC := RNum (Fin 38 0)\<rparr>) \<and>
   TEMP_m3C \<in> matched lc (inp\<lparr>tempC := RNum (Fin (- 3) 0)\<rparr>) \<and>
   severity RAIN_20MM_1H = ''CRITICAL'' \<and> severity RAIN_8MM_1H = ''ALERT'' \<and>
   severity WIND_20MS = ''CRITICAL'' \<and> severity WIND_12MS = ''ALERT'' \<and>
   severity TEMP_38C = ''CRITICAL'' \<and> severity TEMP_33C = ''ALERT'' \<and>
   severity TEMP_m3C = ''CRITICAL'' \<and> severity TEMP_2C = ''ALERT'' \<and>
   decision (decideRisk lc inp) =
     (if \<exists>r \<in> matched lc inp. severity r = ''CRITICAL'' then ''CRITICAL''
      else if \<exists>r \<in> matched lc inp. severity r = ''ALERT'' then ''ALERT''
      else ''NORMAL'') \<and>
   decideRisk lc \<lparr>tempC = RNum (Fin 25 0), windMs = RNum (Fin 25 0), rain1hMm = RNum (Fin 0 0)\<rparr> =
     \<lparr>decision = ''CRITICAL'',
      applied_rule =
        \<lparr>version = 1,
         inputs = \<lparr>tempC = RNum (Fin 25 0), windMs = RNum (Fin 25 0), rain1hMm = RNum (Fin 0 0)\<rparr>,
         rules = [WIND_20MS]\<rparr>\<rparr>"
proof -
  have rain: "RAIN_8MM_1H \<in> matched lc (inp\<lparr>rain1hMm := RNum (Fin 19999 (- 3))\<rparr>)"
    "RAIN_20MM_1H \<notin> matched lc (inp\<lparr>rain1hMm := RNum (Fin 19999 (- 3))\<rparr>)"
    "RAIN_8MM_1H \<notin> matched lc (inp\<lparr>rain1hMm := RNum (Fin 7999 (- 3))\<rparr>)"
    "RAIN_20MM_1H \<notin> matched lc (inp\<lparr>rain1hMm := RNum (Fin 7999 (- 3))\<rparr>)"
    "RAIN_20MM_1H \<in> matched lc (inp\<lparr>rain1hMm := RNum (Fin 20 0)\<rparr>)"
    by (simp_all add: matched_rain compare_defs)
  have wind: "WIND_12MS \<notin> matched lc (inp\<lparr>windMs := RNum (Fin 11999 (- 3))\<rparr>)"
    "WIND_20MS \<notin> matched lc (inp\<lparr>windMs := RNum (Fin 11999 (- 3))\<rparr>)"
    "WIND_12MS \<in> matched lc (inp\<lparr>windMs := RNum (Fin 12 0)\<rparr>)"
    "WIND_20MS \<in> matched lc (inp\<lparr>windMs := RNum (Fin 20 0)\<rparr>)"
    by (simp_all add: matched_wind compare_defs)
  have temp: "TEMP_2C \<in> matched lc (inp\<lparr>tempC := RNum (Fin 2 0)\<rparr>)"
    "TEMP_2C \<notin> matched lc (inp\<lparr>tempC := RNum (Fin 21 (- 1))\<rparr>)"
    "TEMP_m3C \<notin> matched lc (inp\<lparr>tempC := RNum (Fin 21 (- 1))\<rparr>)"
    "TEMP_33C \<notin> matched lc (inp\<lparr>tempC := RNum (Fin 21 (- 1))\<rparr>)"
    "TEMP_38C \<notin> matched lc (inp\<lparr>tempC := RNum (Fin 21 (- 1))\<rparr>)"
    "TEMP_33C \<in> matched lc (inp\<lparr>tempC := RNum (Fin 33 0)\<rparr>)"
    "TEMP_38C \<in> matched lc (inp\<lparr>tempC := RNum (Fin 38 0)\<rparr>)"
    "TEMP_m3C \<in> matched lc (inp\<lparr>tempC := RNum (Fin (- 3) 0)\<rparr>)"
    by (simp_all add: matched_heat matched_cold compare_defs)
  have sev: "severity RAIN_20MM_1H = ''CRITICAL''" "severity RAIN_8MM_1H = ''ALERT''"
    "severity WIND_20MS = ''CRITICAL''" "severity WIND_12MS = ''ALERT''"
    "severity TEMP_38C = ''CRITICAL''" "severity TEMP_33C = ''ALERT''"
    "severity TEMP_m3C = ''CRITICAL''" "severity TEMP_2C = ''ALERT''"
    by (simp_all add: rule_defs)
  have combined:
    "decideRisk lc \<lparr>tempC = RNum (Fin 25 0), windMs = RNum (Fin 25 0), rain1hMm = RNum (Fin 0 0)\<rparr> =
     \<lparr>decision = ''CRITICAL'',
      applied_rule =
        \<lparr>version = 1,
         inputs = \<lparr>tempC = RNum (Fin 25 0), windMs = RNum (Fin 25 0), rain1hMm = RNum (Fin 0 0)\<rparr>,
         rules = [WIND_20MS]\<rparr>\<rparr>"
    by (simp add: decideRisk_def pushed_rules_def compare_defs Array_sort_def rule_defs)
  from rain wind temp sev decision_of_matched [of lc inp] combined
  show ?thesis by blast
qed

text \<open>
  The claim as the spec states it has no rain rule at \<^verbatim>\<open>rain1hMm = 19.999\<close>. The code
  matches \<^verbatim>\<open>RAIN_8MM_1H\<close> from 8 mm on, so with a mild temperature and no wind the
  decision at 19.999 mm is \<^verbatim>\<open>ALERT\<close> with that one rule.
\<close>

theorem decideRisk_boundaries_counterexample:
  "decideRisk codeunit_compare
     \<lparr>tempC = RNum (Fin 25 0), windMs = RNum (Fin 0 0), rain1hMm = RNum (Fin 19999 (- 3))\<rparr> =
   \<lparr>decision = ''ALERT'',
    applied_rule =
      \<lparr>version = 1,
       inputs = \<lparr>tempC = RNum (Fin 25 0), windMs = RNum (Fin 0 0),
                  rain1hMm = RNum (Fin 19999 (- 3))\<rparr>,
       rules = [RAIN_8MM_1H]\<rparr>\<rparr>"
  by (simp add: decideRisk_def pushed_rules_def compare_defs Array_sort_def rule_defs)

subsection \<open>C6: the rules are sorted by id\<close>

text \<open>
  C6. The source sorts with \<^verbatim>\<open>localeCompare\<close>. For every locale that puts the letters
  R, T and W in the order of the alphabet, and for every input (finite or not, or
  \<^verbatim>\<open>null\<close>), the ids of the returned rules are in the lexicographic order of their
  code units, and they are the sorted ids of the rules that were pushed: the order of
  the pushes does not show in the result.
\<close>

theorem rules_sorted_by_id:
  assumes "alphabetical localeCompare"
  shows "sorted (map rule_id (rules (applied_rule (decideRisk localeCompare inp)))) \<and>
         map rule_id (rules (applied_rule (decideRisk localeCompare inp))) =
           sort (map rule_id (pushed_rules inp))"
proof -
  let ?ids = "map rule_id (rules (applied_rule (decideRisk localeCompare inp)))"
  have s: "sorted ?ids" by (rule sorted_rules [OF assms])
  have r: "rules (applied_rule (decideRisk localeCompare inp)) =
      Array_sort (\<lambda>a b. localeCompare (rule_id a) (rule_id b)) (pushed_rules inp)"
    by (simp add: decideRisk_def Let_def)
  have "inj_on rule_id (set (pushed_rules inp))"
    using pushed_ids_distinct [of inp] by (simp add: distinct_map)
  then have d: "distinct ?ids"
    using pushed_distinct [of inp]
    by (simp add: r distinct_map distinct_Array_sort set_Array_sort)
  have e: "set ?ids = set (sort (map rule_id (pushed_rules inp)))"
    by (simp add: r set_Array_sort)
  have "?ids = sort (map rule_id (pushed_rules inp))"
    by (rule sorted_distinct_set_unique [OF s d _ _ e])
      (simp_all add: pushed_ids_distinct)
  with s show ?thesis by simp
qed

theorem rules_sorted_by_id_witness:
  "alphabetical codeunit_compare \<and>
   map rule_id (pushed_rules
     \<lparr>tempC = RNull, windMs = RNum (Fin 25 0), rain1hMm = RNum (Fin 19999 (- 3))\<rparr>) =
     [''RAIN_8MM_1H'', ''WIND_20MS'', ''TEMP_2C''] \<and>
   map rule_id (rules (applied_rule (decideRisk codeunit_compare
     \<lparr>tempC = RNull, windMs = RNum (Fin 25 0), rain1hMm = RNum (Fin 19999 (- 3))\<rparr>))) =
     [''RAIN_8MM_1H'', ''TEMP_2C'', ''WIND_20MS'']"
proof -
  have p: "map rule_id (pushed_rules
     \<lparr>tempC = RNull, windMs = RNum (Fin 25 0), rain1hMm = RNum (Fin 19999 (- 3))\<rparr>) =
     [''RAIN_8MM_1H'', ''WIND_20MS'', ''TEMP_2C'']"
    by (simp add: pushed_rules_def compare_defs rule_defs)
  from rules_sorted_by_id [OF alphabetical_codeunit_compare,
      of "\<lparr>tempC = RNull, windMs = RNum (Fin 25 0), rain1hMm = RNum (Fin 19999 (- 3))\<rparr>"]
  show ?thesis
    by (simp add: p alphabetical_codeunit_compare)
qed

subsection \<open>C10: a reading without a temperature\<close>

text \<open>
  C10. When the sensor's answer has no temperature (\<^verbatim>\<open>raw?.main?.temp\<close> is
  \<^verbatim>\<open>undefined\<close> or \<^verbatim>\<open>null\<close>), the worker passes \<^verbatim>\<open>tempC = null\<close> to \<^verbatim>\<open>decideRisk\<close>.
  With wind and rain readings below their thresholds the result is \<^verbatim>\<open>ALERT\<close> with
  the one rule \<^verbatim>\<open>TEMP_2C\<close>: \<^verbatim>\<open>null\<close> compares as 0, so \<^verbatim>\<open>null <= 2\<close> holds, and
  \<^verbatim>\<open>null <= -3\<close>, \<^verbatim>\<open>null >= 33\<close> and \<^verbatim>\<open>null >= 38\<close> do not.
\<close>

theorem missing_temperature:
  assumes "optional_member (optional_member raw ''main'') ''temp'' = JUndefined \<or>
           optional_member (optional_member raw ''main'') ''temp'' = JNull"
    and "reading_of (sensor_windMs (sensor_readings raw)) = Some w"
    and "reading_of (sensor_rain1hMm (sensor_readings raw)) = Some r"
    and "\<not> js_ge w 12" and "\<not> js_ge r 8"
  shows "sensor_tempC (sensor_readings raw) = JNull \<and>
         handler_decide lc raw =
           Some \<lparr>decision = ''ALERT'',
                 applied_rule =
                   \<lparr>version = 1,
                    inputs = \<lparr>tempC = RNull, windMs = w, rain1hMm = r\<rparr>,
                    rules = [TEMP_2C]\<rparr>\<rparr> \<and>
         js_le RNull 2 \<and> \<not> js_le RNull (- 3) \<and> \<not> js_ge RNull 33 \<and> \<not> js_ge RNull 38"
proof -
  from assms(1) have t: "sensor_tempC (sensor_readings raw) = JNull"
    by (auto simp: sensor_readings_def nullish_def)
  from assms(4) have w: "\<not> js_ge w 20" using js_ge_antimono [of w 20 12] by auto
  from assms(5) have r: "\<not> js_ge r 20" using js_ge_antimono [of r 20 8] by auto
  have n: "js_le RNull 2" "\<not> js_le RNull (- 3)" "\<not> js_ge RNull 33" "\<not> js_ge RNull 38"
    by (simp_all add: compare_defs)
  have "decideRisk lc \<lparr>tempC = RNull, windMs = w, rain1hMm = r\<rparr> =
      \<lparr>decision = ''ALERT'',
       applied_rule =
         \<lparr>version = 1, inputs = \<lparr>tempC = RNull, windMs = w, rain1hMm = r\<rparr>,
          rules = [TEMP_2C]\<rparr>\<rparr>"
    using assms(4,5) w r n
    by (simp add: decideRisk_def pushed_rules_def Array_sort_def rule_defs)
  with t assms(2,3) n show ?thesis
    by (simp add: handler_decide_def reading_of_def)
qed

theorem missing_temperature_witness:
  "sensor_tempC (sensor_readings (JObj [(''wind'', JObj [(''speed'', JNum (Fin 3 0))])])) = JNull \<and>
   handler_decide codeunit_compare (JObj [(''wind'', JObj [(''speed'', JNum (Fin 3 0))])]) =
     Some \<lparr>decision = ''ALERT'',
           applied_rule =
             \<lparr>version = 1,
              inputs = \<lparr>tempC = RNull, windMs = RNum (Fin 3 0), rain1hMm = RNum (Fin 0 0)\<rparr>,
              rules = [TEMP_2C]\<rparr>\<rparr>"
proof -
  let ?raw = "JObj [(''wind'', JObj [(''speed'', JNum (Fin 3 0))])]"
  have a: "optional_member (optional_member ?raw ''main'') ''temp'' = JUndefined \<or>
           optional_member (optional_member ?raw ''main'') ''temp'' = JNull"
    by (simp add: optional_member_def get_prop_def)
  have b: "reading_of (sensor_windMs (sensor_readings ?raw)) = Some (RNum (Fin 3 0))"
    by (simp add: sensor_readings_def optional_member_def get_prop_def nullish_def reading_of_def)
  have c: "reading_of (sensor_rain1hMm (sensor_readings ?raw)) = Some (RNum (Fin 0 0))"
    by (simp add: sensor_readings_def optional_member_def get_prop_def nullish_def reading_of_def)
  have d: "\<not> js_ge (RNum (Fin 3 0)) 12" "\<not> js_ge (RNum (Fin 0 0)) 8"
    by (simp_all add: compare_defs)
  from missing_temperature [OF a b c d, of codeunit_compare] show ?thesis by simp
qed

section \<open>The claims about the encoder and the projections\<close>

subsection \<open>C7: the canonical encoding is deterministic\<close>

text \<open>
  C7. \<open>stableStringify\<close> is a function of the value tree alone: it reads no state, so
  every call on a tree returns the same string. Two trees that are the same value up
  to the insertion order of the keys of their objects, at every depth of the tree, have
  the same encoding: at every object the keys are sorted before the pairs are joined.
  (The keys of a JavaScript object are distinct.)
\<close>

theorem canonical_key_order:
  "same_value u v \<Longrightarrow> stableStringify u = stableStringify v"
proof (induction rule: same_value.induct)
  case (same_refl v)
  show ?case by simp
next
  case (same_arr us vs)
  then have "map stableStringify us = map stableStringify vs"
    by (induction rule: list_all2_induct) simp_all
  then show ?case by simp
next
  case (same_obj kvs1 kvs2)
  from same_obj(1,2,3) have keys: "sort (map fst kvs1) = sort (map fst kvs2)"
    by (rule sort_same_set)
  have "map (\<lambda>k. JSON_stringify_string k @ '':'' @ stableStringify (get_prop kvs1 k))
          (sort (map fst kvs1)) =
        map (\<lambda>k. JSON_stringify_string k @ '':'' @ stableStringify (get_prop kvs2 k))
          (sort (map fst kvs1))"
  proof (rule map_cong [OF refl])
    fix k assume "k \<in> set (sort (map fst kvs1))"
    then have "k \<in> set (map fst kvs1)" by simp
    from same_obj.IH [OF this]
    show "JSON_stringify_string k @ '':'' @ stableStringify (get_prop kvs1 k) =
          JSON_stringify_string k @ '':'' @ stableStringify (get_prop kvs2 k)"
      by simp
  qed
  then show ?case
    by (simp only: stableStringify.simps Let_def keys)
qed

text \<open>
  \<^verbatim>\<open>{ o: { x: 1, y: 2 }, a: [{ q: true, p: null }] }\<close> and
  \<^verbatim>\<open>{ a: [{ p: null, q: true }], o: { y: 2, x: 1 } }\<close>: the keys are in another order at the
  root, in the object under \<^verbatim>\<open>o\<close> and in the object inside the array.
\<close>

theorem canonical_key_order_witness:
  "same_value
     (JObj [(''o'', JObj [(''x'', JNum (Fin 1 0)), (''y'', JNum (Fin 2 0))]),
            (''a'', JArr [JObj [(''q'', JBool True), (''p'', JNull)]])])
     (JObj [(''a'', JArr [JObj [(''p'', JNull), (''q'', JBool True)]]),
            (''o'', JObj [(''y'', JNum (Fin 2 0)), (''x'', JNum (Fin 1 0))])]) \<and>
   stableStringify
     (JObj [(''o'', JObj [(''x'', JNum (Fin 1 0)), (''y'', JNum (Fin 2 0))]),
            (''a'', JArr [JObj [(''q'', JBool True), (''p'', JNull)]])]) =
   stableStringify
     (JObj [(''a'', JArr [JObj [(''p'', JNull), (''q'', JBool True)]]),
            (''o'', JObj [(''y'', JNum (Fin 2 0)), (''x'', JNum (Fin 1 0))])]) \<and>
   stableStringify
     (JObj [(''a'', JArr [JObj [(''p'', JNull), (''q'', JBool True)]]),
            (''o'', JObj [(''y'', JNum (Fin 2 0)), (''x'', JNum (Fin 1 0))])]) =
   ''{\"a\":[{\"p\":null,\"q\":true}],\"o\":{\"x\":1,\"y\":2}}''"
proof -
  define u where "u = JObj [(''o'', JObj [(''x'', JNum (Fin 1 0)), (''y'', JNum (Fin 2 0))]),
            (''a'', JArr [JObj [(''q'', JBool True), (''p'', JNull)]])]"
  define v where "v = JObj [(''a'', JArr [JObj [(''p'', JNull), (''q'', JBool True)]]),
            (''o'', JObj [(''y'', JNum (Fin 2 0)), (''x'', JNum (Fin 1 0))])]"
  have o: "same_value (JObj [(''x'', JNum (Fin 1 0)), (''y'', JNum (Fin 2 0))])
                      (JObj [(''y'', JNum (Fin 2 0)), (''x'', JNum (Fin 1 0))])"
    by (rule same_obj) (auto simp: get_prop_def intro: same_refl)
  have q: "same_value (JObj [(''q'', JBool True), (''p'', JNull)])
                      (JObj [(''p'', JNull), (''q'', JBool True)])"
    by (rule same_obj) (auto simp: get_prop_def intro: same_refl)
  have a: "same_value (JArr [JObj [(''q'', JBool True), (''p'', JNull)]])
                      (JArr [JObj [(''p'', JNull), (''q'', JBool True)]])"
    by (rule same_arr) (simp add: q)
  have s: "same_value u v"
    unfolding u_def v_def by (rule same_obj) (auto simp: get_prop_def o a)
  have e: "stableStringify v = ''{\"a\":[{\"p\":null,\"q\":true}],\"o\":{\"x\":1,\"y\":2}}''"
    unfolding v_def by code_simp
  from canonical_key_order [OF s] s e show ?thesis
    unfolding u_def v_def by blast
qed

subsection \<open>C4: applying a projection twice\<close>

text \<open>
  C4, as the code has it. \<^verbatim>\<open>weather_snapshots\<close> has no uniqueness constraint on
  \<^verbatim>\<open>ledger_hash\<close> and \<^verbatim>\<open>applyProjections\<close> inserts a history row on every call. When
  an application has succeeded, a second application of the same update succeeds too;
  each adds one history row for that \<^verbatim>\<open>ledger_hash\<close>, so two applications leave two
  rows more than there were. The \<^verbatim>\<open>location_state\<close> row after the second application
  is the row after the first with \<^verbatim>\<open>updated_at\<close> set to the time of the second
  application; the other columns are unchanged.
\<close>

theorem projections_applied_twice:
  assumes "applyProjections t1 t2 db a = Inr db1"
  shows "\<exists>db2. applyProjections t3 t4 db1 a = Inr db2 \<and>
           length (snapshots_of db1 (arg_ledger_hash a)) =
             Suc (length (snapshots_of db (arg_ledger_hash a))) \<and>
           length (snapshots_of db2 (arg_ledger_hash a)) =
             Suc (Suc (length (snapshots_of db (arg_ledger_hash a)))) \<and>
           location_state db2 = (location_state db1)(arg_locationId a \<mapsto>
             (the (location_state db1 (arg_locationId a)))\<lparr>ls_updated_at := t3\<rparr>)"
proof -
  from applyProjections_Inr [OF assms]
  have v: "projection_violation db a = None"
    and loc: "locations db1 = locations db"
    and ls1: "location_state db1 = (location_state db)(arg_locationId a \<mapsto>
           \<lparr>ls_location_id = arg_locationId a, ls_updated_at = t1,
            ls_decision = arg_decision a, ls_applied_rule = arg_applied_rule a,
            ls_raw_weather = arg_raw_weather a, ls_ledger_hash = arg_ledger_hash a\<rparr>)"
    and ws1: "weather_snapshots db1 = weather_snapshots db @
           [\<lparr>ws_id = next_snapshot_id (weather_snapshots db),
             ws_location_id = arg_locationId a, ws_created_at = t2,
             ws_decision = arg_decision a, ws_applied_rule = arg_applied_rule a,
             ws_raw_weather = arg_raw_weather a, ws_ledger_hash = arg_ledger_hash a\<rparr>]"
    by simp_all
  from projection_violation_frame [OF loc, of a] v
  have "projection_violation db1 a = None" by simp
  from applyProjections_accepts [OF this, of t3 t4]
  obtain db2 where second: "applyProjections t3 t4 db1 a = Inr db2" by blast
  from applyProjections_Inr [OF second]
  have ls2: "location_state db2 = (location_state db1)(arg_locationId a \<mapsto>
           \<lparr>ls_location_id = arg_locationId a, ls_updated_at = t3,
            ls_decision = arg_decision a, ls_applied_rule = arg_applied_rule a,
            ls_raw_weather = arg_raw_weather a, ls_ledger_hash = arg_ledger_hash a\<rparr>)"
    and ws2: "weather_snapshots db2 = weather_snapshots db1 @
           [\<lparr>ws_id = next_snapshot_id (weather_snapshots db1),
             ws_location_id = arg_locationId a, ws_created_at = t4,
             ws_decision = arg_decision a, ws_applied_rule = arg_applied_rule a,
             ws_raw_weather = arg_raw_weather a, ws_ledger_hash = arg_ledger_hash a\<rparr>]"
    by simp_all
  have n1: "length (snapshots_of db1 (arg_ledger_hash a)) =
      Suc (length (snapshots_of db (arg_ledger_hash a)))"
    by (simp add: snapshots_of_def ws1)
  have n2: "length (snapshots_of db2 (arg_ledger_hash a)) =
      Suc (length (snapshots_of db1 (arg_ledger_hash a)))"
    by (simp add: snapshots_of_def ws2)
  have st: "location_state db2 = (location_state db1)(arg_locationId a \<mapsto>
      (the (location_state db1 (arg_locationId a)))\<lparr>ls_updated_at := t3\<rparr>)"
    unfolding ls2 by (simp add: ls1)
  from second n1 n2 st show ?thesis by simp
qed

theorem projections_applied_twice_witness:
  "(\<exists>db1 db2.
      applyProjections 1 1 one_location one_decision = Inr db1 \<and>
      applyProjections 2 2 db1 one_decision = Inr db2 \<and>
      length (snapshots_of db1 refresh_digest) = 1 \<and>
      length (snapshots_of db2 refresh_digest) = 2 \<and>
      location_state db2 = (location_state db1)(''loc-1'' \<mapsto>
        (the (location_state db1 ''loc-1''))\<lparr>ls_updated_at := 2\<rparr>))"
proof -
  have "projection_violation one_location one_decision = None"
    by (simp add: projection_violation_def one_location_def one_decision_def)
  from applyProjections_accepts [OF this, of 1 1]
  obtain db1 where first: "applyProjections 1 1 one_location one_decision = Inr db1" by blast
  have none: "snapshots_of one_location refresh_digest = []"
    by (simp add: snapshots_of_def one_location_def)
  have h: "arg_ledger_hash one_decision = refresh_digest" "arg_locationId one_decision = ''loc-1''"
    by (simp_all add: one_decision_def)
  from projections_applied_twice [OF first, of 2 2] first show ?thesis
    by (auto simp: none h)
qed

text \<open>
  The claim as the spec states it has one history row for the \<^verbatim>\<open>ledger_hash\<close> and an
  unchanged \<^verbatim>\<open>location_state\<close> row. Applied at time 1 and again at time 2, the same
  update leaves two history rows with that \<^verbatim>\<open>ledger_hash\<close>, and the state row of the
  location has \<^verbatim>\<open>updated_at = 2\<close> where it had 1.
\<close>

theorem projections_applied_twice_counterexample:
  "(case applyProjections 1 1 one_location one_decision of
      Inl e \<Rightarrow> False
    | Inr db1 \<Rightarrow>
        (case applyProjections 2 2 db1 one_decision of
           Inl e \<Rightarrow> False
         | Inr db2 \<Rightarrow>
             map ws_id (snapshots_of db2 (arg_ledger_hash one_decision)) = [1, 2] \<and>
             map_option ls_updated_at (location_state db1 ''loc-1'') = Some 1 \<and>
             map_option ls_updated_at (location_state db2 ''loc-1'') = Some 2))"
  by (simp add: applyProjections_def upsert_location_state_def insert_weather_snapshot_def
      projection_violation_def one_location_def one_decision_def snapshots_of_def
      next_snapshot_id_def)

section \<open>The claim about cyclic input\<close>

subsection \<open>C8: a value that contains itself\<close>

text \<open>
  C8, as the code has it. The encoder has no check for a cycle and raises no error of
  its own. On a value that contains a reference to itself, be it the object on the
  cycle or an object or array that holds it at any depth, the encoder returns no
  string and truncates nothing, whatever room the call stack has: the recursion runs
  until the stack is full and the call ends with the engine's \<^verbatim>\<open>RangeError\<close>.
\<close>

theorem cyclic_input_fails:
  assumes "cyclic h v"
  shows "stableStringify_heap d h v = Inl RangeError"
proof -
  from assms obtain a c where v: "v = HRef a"
    and r: "(a, c) \<in> (edges h)\<^sup>*" and c: "(c, c) \<in> (edges h)\<^sup>+"
    unfolding cyclic_def by blast
  from cycle_overflows [OF c r, of d] v show ?thesis by simp
qed

text \<open>
  The object that holds itself, and the object \<^verbatim>\<open>{ event_type, payload }\<close> that
  \<^verbatim>\<open>appendLedgerEvent\<close> builds around such a payload.
\<close>

theorem cyclic_input_fails_witness:
  "cyclic self_heap (HRef 0) \<and> stableStringify_heap 10000 self_heap (HRef 0) = Inl RangeError \<and>
   cyclic wrapped_heap (HRef 0) \<and> stableStringify_heap 10000 wrapped_heap (HRef 0) = Inl RangeError"
  using cyclic_input_fails [OF cyclic_self, of 10000] cyclic_self
    cyclic_input_fails [OF cyclic_wrapped, of 10000] cyclic_wrapped
  by simp

text \<open>
  The claim as the spec states it has the encoder fail with an \<^verbatim>\<open>EncodingError\<close> for a
  cyclic value. The error the call ends with is the engine's \<^verbatim>\<open>RangeError\<close>, and it
  does not tell a cycle from depth: a tree deeper than the stack has room for ends
  with the same error, and is encoded when the stack has room.
\<close>

theorem cyclic_input_counterexample:
  "cyclic self_heap (HRef 0) \<and>
   stableStringify_heap 10000 self_heap (HRef 0) = Inl RangeError \<and>
   stableStringify_heap 10000 self_heap (HRef 0) \<noteq> Inl EncodingError \<and>
   \<not> cyclic tree_heap (HRef 0) \<and>
   stableStringify_heap 2 tree_heap (HRef 0) = Inl RangeError \<and>
   stableStringify_heap 3 tree_heap (HRef 0) = Inr ''{\"list\":[1],\"name\":\"x\"}''"
proof -
  have "(0, 0) \<in> (edges self_heap)\<^sup>+"
    by (rule r_into_trancl) (simp add: edges_def visited_def self_heap_def get_hprop_def)
  from cycle_overflows [OF this, of 0 10000]
  have a: "stableStringify_heap 10000 self_heap (HRef 0) = Inl RangeError" by simp
  have b: "stableStringify_heap 2 tree_heap (HRef 0) = Inl RangeError"
    by code_simp
  from a b cyclic_self tree_heap_acyclic tree_heap_encoded show ?thesis by simp
qed
section \<open>The claim about concurrent appends\<close>

lemma two_calls_table:
  "event_hash (last (table two_calls)) = genesis_digest"
  "set (map event_hash (table two_calls)) = {genesis_digest}"
  by (simp_all add: two_calls_def genesis_hash)

lemma two_calls_next_id: "next_id (table two_calls) = 2"
  by (simp add: two_calls_def next_id_def genesis_def)

lemma two_calls_hashes:
  "sha256Hex (canonical genesis_digest ''CMD_LOCATION_REFRESH''
     (JObj [(''locationId'', JStr ''x'')])) = refresh_digest"
  "sha256Hex (canonical genesis_digest ''CMD_LOCATION_REFRESH''
     (JObj [(''locationId'', JStr ''y'')])) = other_digest"
  using refresh_hash other_hash
  by (simp_all add: refresh_payload_def other_payload_def)

lemma two_calls_interleaved: "table (run [0, 1, 0, 1] two_calls) = forked_ledger"
proof -
  have "table (run [0, 1, 0, 1] two_calls) =
      table two_calls @
        [\<lparr>event_id = next_id (table two_calls), event_type = ''CMD_LOCATION_REFRESH'',
          payload = jsonb (JObj [(''locationId'', JStr ''x'')]),
          prev_hash = event_hash (last (table two_calls)),
          event_hash = sha256Hex (canonical (event_hash (last (table two_calls)))
            ''CMD_LOCATION_REFRESH'' (JObj [(''locationId'', JStr ''x'')]))\<rparr>,
         \<lparr>event_id = Suc (next_id (table two_calls)), event_type = ''CMD_LOCATION_REFRESH'',
          payload = jsonb (JObj [(''locationId'', JStr ''y'')]),
          prev_hash = event_hash (last (table two_calls)),
          event_hash = sha256Hex (canonical (event_hash (last (table two_calls)))
            ''CMD_LOCATION_REFRESH'' (JObj [(''locationId'', JStr ''y'')]))\<rparr>]"
  proof (rule interleaved)
    show "sha256Hex (canonical (event_hash (last (table two_calls))) ''CMD_LOCATION_REFRESH''
            (JObj [(''locationId'', JStr ''x'')])) \<notin> set (map event_hash (table two_calls))"
      unfolding two_calls_table two_calls_hashes using digests_differ by simp
    show "sha256Hex (canonical (event_hash (last (table two_calls))) ''CMD_LOCATION_REFRESH''
            (JObj [(''locationId'', JStr ''y'')])) \<notin> set (map event_hash (table two_calls))"
      unfolding two_calls_table two_calls_hashes using digests_differ by simp
    show "sha256Hex (canonical (event_hash (last (table two_calls))) ''CMD_LOCATION_REFRESH''
            (JObj [(''locationId'', JStr ''x'')])) \<noteq>
          sha256Hex (canonical (event_hash (last (table two_calls))) ''CMD_LOCATION_REFRESH''
            (JObj [(''locationId'', JStr ''y'')]))"
      unfolding two_calls_table two_calls_hashes using digests_differ by simp
  qed (simp_all add: two_calls_def refresh_payload_def other_payload_def)
  then show ?thesis
    unfolding two_calls_table two_calls_hashes two_calls_next_id
    by (simp add: two_calls_def forked_ledger_def refresh_payload_def other_payload_def
        jsonb_order_def parsed_order_def array_index_def)
qed

lemma verify_forked_ledger:
  "verify forked_ledger =
     \<lparr>ok = False, count = 3,
      errors = [prev_hash_link_broken ''3'' genesis_digest refresh_digest]\<rparr>"
proof -
  let ?r = "\<lparr>event_id = 3, event_type = ''CMD_LOCATION_REFRESH'', payload = other_payload,
             prev_hash = genesis_digest, event_hash = other_digest\<rparr>"
  have f: "forked_ledger = refresh_ledger @ [?r]"
    by (simp add: forked_ledger_def refresh_ledger_def)
  have a: "refresh_ledger \<noteq> []" by (simp add: refresh_ledger_def)
  have len: "length refresh_ledger = 2" by (simp add: refresh_ledger_def)
  have b: "verify refresh_ledger = \<lparr>ok = True, count = length refresh_ledger, errors = []\<rparr>"
    by (simp add: verify_refresh_ledger len)
  have c: "computed_hash ?r = event_hash ?r"
    by (simp add: computed_hash_def other_hash)
  have d: "prev_hash ?r \<noteq> event_hash (last refresh_ledger)"
    using digests_differ by (simp add: refresh_ledger_def)
  have e: "event_hash (last refresh_ledger) = refresh_digest"
    by (simp add: refresh_ledger_def)
  from verify_snoc_broken [OF a b c d] show ?thesis
    by (simp add: f len e String_id_def decimal_3)
qed

subsection \<open>C9: the read and the insert of an append are not one atomic unit\<close>

text \<open>
  C9 does not hold of the code. The two statements of an append are two statements:
  nothing in either service keeps the statements of another append from running
  between them. Take a ledger that the audit accepts and two calls that have not
  started, with payloads the column takes and gives back with the same encoding. When
  the calls run one after the other, the audit accepts the ledger afterwards. When
  both calls read before either inserts, and their events differ (two new, different
  hashes), both inserts commit with the same \<^verbatim>\<open>prev_hash\<close>, the hash of the row that
  was last when they read: the chain is forked, and the audit of the code itself
  reports \<^verbatim>\<open>ok = false\<close> with a \<^verbatim>\<open>prev_hash_link_broken\<close> entry for the second of the
  two rows.
\<close>

theorem concurrent_appends:
  assumes i: "i < length (calls s)" and j: "j < length (calls s)" and ne: "i \<noteq> j"
    and ci: "calls s ! i = \<lparr>call_eventType = t1, call_payload = JObj kvs1, call_phase = NotStarted\<rparr>"
    and cj: "calls s ! j = \<lparr>call_eventType = t2, call_payload = JObj kvs2, call_phase = NotStarted\<rparr>"
    and rows: "table s \<noteq> []"
    and v: "verify (table s) = \<lparr>ok = True, count = length (table s), errors = []\<rparr>"
    and n1: "nul_free (JObj kvs1)" and n2: "nul_free (JObj kvs2)"
    and d1: "distinct_keys (JObj kvs1)" "defined_properties (JObj kvs1)"
    and d2: "distinct_keys (JObj kvs2)" "defined_properties (JObj kvs2)"
    and h1: "sha256Hex (canonical (event_hash (last (table s))) t1 (JObj kvs1))
               \<notin> set (map event_hash (table s))"
    and h2: "sha256Hex (canonical (event_hash (last (table s))) t2 (JObj kvs2))
               \<notin> set (map event_hash (table s))"
    and h12: "sha256Hex (canonical (event_hash (last (table s))) t1 (JObj kvs1)) \<noteq>
              sha256Hex (canonical (event_hash (last (table s))) t2 (JObj kvs2))"
  shows "ok (verify (table (run [i, i, j, j] s))) \<and>
         table (run [i, j, i, j] s) =
           table s @
             [\<lparr>event_id = next_id (table s), event_type = t1, payload = jsonb (JObj kvs1),
               prev_hash = event_hash (last (table s)),
               event_hash = sha256Hex (canonical (event_hash (last (table s))) t1 (JObj kvs1))\<rparr>,
              \<lparr>event_id = Suc (next_id (table s)), event_type = t2, payload = jsonb (JObj kvs2),
               prev_hash = event_hash (last (table s)),
               event_hash = sha256Hex (canonical (event_hash (last (table s))) t2 (JObj kvs2))\<rparr>] \<and>
         \<not> ok (verify (table (run [i, j, i, j] s))) \<and>
         prev_hash_link_broken (decimal (int (Suc (next_id (table s)))))
             (event_hash (last (table s)))
             (sha256Hex (canonical (event_hash (last (table s))) t1 (JObj kvs1)))
           \<in> set (errors (verify (table (run [i, j, i, j] s))))"
proof -
  have serial: "ok (verify (table (run [i, i, j, j] s)))"
  proof -
    from ci have ni: "call_phase (calls s ! i) = NotStarted" by simp
    from ci d1 have pi: "distinct_keys (call_payload (calls s ! i))"
      "defined_properties (call_payload (calls s ! i))" by simp_all
    from serial_keeps_verified [OF i ni rows v pi]
    have a: "table (run [i, i] s) \<noteq> []"
      and b: "verify (table (run [i, i] s)) =
                \<lparr>ok = True, count = length (table (run [i, i] s)), errors = []\<rparr>"
      and c: "length (calls (run [i, i] s)) = length (calls s)"
      and d: "calls (run [i, i] s) ! j = calls s ! j"
      using ne by auto
    from j c have j': "j < length (calls (run [i, i] s))" by simp
    from d cj have nj: "call_phase (calls (run [i, i] s) ! j) = NotStarted" by simp
    from d cj d2 have pj: "distinct_keys (call_payload (calls (run [i, i] s) ! j))"
      "defined_properties (call_payload (calls (run [i, i] s) ! j))" by simp_all
    from serial_keeps_verified [OF j' nj a b pj]
    have "ok (verify (table (run [j, j] (run [i, i] s))))" by simp
    moreover have "run [i, i, j, j] s = run [j, j] (run [i, i] s)"
      using run_append [of "[i, i]" "[j, j]" s] by simp
    ultimately show ?thesis by simp
  qed
  define L where "L = event_hash (last (table s))"
  define r1 where "r1 = \<lparr>event_id = next_id (table s), event_type = t1,
      payload = jsonb (JObj kvs1),
      prev_hash = L, event_hash = sha256Hex (canonical L t1 (JObj kvs1))\<rparr>"
  define r2 where "r2 = \<lparr>event_id = Suc (next_id (table s)), event_type = t2,
      payload = jsonb (JObj kvs2),
      prev_hash = L, event_hash = sha256Hex (canonical L t2 (JObj kvs2))\<rparr>"
  have fork: "table (run [i, j, i, j] s) = table s @ [r1, r2]"
    using interleaved [OF i j ne ci cj rows n1 n2 h1 h2 h12]
    by (simp add: r1_def r2_def L_def del: jsonb.simps)
  from rows have "L \<in> set (map event_hash (table s))" by (simp add: L_def)
  with h1 have link: "prev_hash r2 \<noteq> event_hash r1"
    by (auto simp: r1_def r2_def L_def)
  have k: "(table s @ [r1, r2]) ! Suc (length (table s)) = r2"
    "(table s @ [r1, r2]) ! (Suc (length (table s)) - 1) = r1"
    by (simp_all add: nth_append)
  from verify_link_broken [of "Suc (length (table s))" "table s @ [r1, r2]"] link k
  have "\<not> ok (verify (table s @ [r1, r2])) \<and>
        prev_hash_link_broken (String_id r2) (prev_hash r2) (event_hash r1)
          \<in> set (errors (verify (table s @ [r1, r2])))"
    by simp
  with serial fork show ?thesis
    by (simp add: r1_def r2_def L_def String_id_def del: jsonb.simps)
qed

theorem concurrent_appends_witness:
  "ok (verify (table (run [0, 0, 1, 1] two_calls))) \<and>
   table (run [0, 1, 0, 1] two_calls) = forked_ledger \<and>
   \<not> ok (verify forked_ledger) \<and>
   prev_hash_link_broken ''3'' genesis_digest refresh_digest \<in> set (errors (verify forked_ledger))"
proof -
  have v: "verify (table two_calls) =
      \<lparr>ok = True, count = length (table two_calls), errors = []\<rparr>"
    by (simp add: two_calls_def verify_genesis)
  have h1: "sha256Hex (canonical (event_hash (last (table two_calls))) ''CMD_LOCATION_REFRESH''
            (JObj [(''locationId'', JStr ''x'')])) \<notin> set (map event_hash (table two_calls))"
    unfolding two_calls_table two_calls_hashes using digests_differ by simp
  have h2: "sha256Hex (canonical (event_hash (last (table two_calls))) ''CMD_LOCATION_REFRESH''
            (JObj [(''locationId'', JStr ''y'')])) \<notin> set (map event_hash (table two_calls))"
    unfolding two_calls_table two_calls_hashes using digests_differ by simp
  have h12: "sha256Hex (canonical (event_hash (last (table two_calls))) ''CMD_LOCATION_REFRESH''
            (JObj [(''locationId'', JStr ''x'')])) \<noteq>
          sha256Hex (canonical (event_hash (last (table two_calls))) ''CMD_LOCATION_REFRESH''
            (JObj [(''locationId'', JStr ''y'')]))"
    unfolding two_calls_table two_calls_hashes using digests_differ by simp
  have i: "0 < length (calls two_calls)" and j: "1 < length (calls two_calls)"
    by (simp_all add: two_calls_def)
  have ne: "(0::nat) \<noteq> 1" by simp
  have ci: "calls two_calls ! 0 =
      \<lparr>call_eventType = ''CMD_LOCATION_REFRESH'',
       call_payload = JObj [(''locationId'', JStr ''x'')], call_phase = NotStarted\<rparr>"
    and cj: "calls two_calls ! 1 =
      \<lparr>call_eventType = ''CMD_LOCATION_REFRESH'',
       call_payload = JObj [(''locationId'', JStr ''y'')], call_phase = NotStarted\<rparr>"
    by (simp_all add: two_calls_def refresh_payload_def other_payload_def)
  have rows: "table two_calls \<noteq> []" by (simp add: two_calls_def)
  have n1: "nul_free (JObj [(''locationId'', JStr ''x'')])"
    and n2: "nul_free (JObj [(''locationId'', JStr ''y'')])"
    and d1: "distinct_keys (JObj [(''locationId'', JStr ''x'')])"
      "defined_properties (JObj [(''locationId'', JStr ''x'')])"
    and d2: "distinct_keys (JObj [(''locationId'', JStr ''y'')])"
      "defined_properties (JObj [(''locationId'', JStr ''y'')])"
    by simp_all
  note t = concurrent_appends [OF i j ne ci cj rows v n1 n2 d1 d2 h1 h2 h12]
  from t have t1: "ok (verify (table (run [0, 0, 1, 1] two_calls)))" by blast
  from t have t2: "\<not> ok (verify (table (run [0, 1, 0, 1] two_calls)))" by blast
  from t have t3: "prev_hash_link_broken (decimal (int (Suc (next_id (table two_calls)))))
             (event_hash (last (table two_calls)))
             (sha256Hex (canonical (event_hash (last (table two_calls)))
                ''CMD_LOCATION_REFRESH'' (JObj [(''locationId'', JStr ''x'')])))
           \<in> set (errors (verify (table (run [0, 1, 0, 1] two_calls))))" by blast
  have d3: "decimal (int (Suc 2)) = ''3''" using decimal_3 by simp
  from t3 have t3': "prev_hash_link_broken ''3'' genesis_digest refresh_digest
      \<in> set (errors (verify forked_ledger))"
    unfolding two_calls_table two_calls_hashes two_calls_next_id two_calls_interleaved d3 .
  from t2 have t2': "\<not> ok (verify forked_ledger)"
    unfolding two_calls_interleaved .
  from t1 t2' t3' two_calls_interleaved show ?thesis by blast
qed

text \<open>
  The claim has no two concurrent appends commit on the same \<^verbatim>\<open>prevHash\<close>. Two refresh
  commands whose reads both run before the inserts leave two rows with the
  \<^verbatim>\<open>prev_hash\<close> of the genesis row, and the audit rejects the ledger.
\<close>

theorem concurrent_appends_counterexample:
  "table (run [0, 1, 0, 1] two_calls) = forked_ledger \<and>
   map prev_hash forked_ledger = [''0'', genesis_digest, genesis_digest] \<and>
   verify forked_ledger =
     \<lparr>ok = False, count = 3,
      errors = [prev_hash_link_broken ''3'' genesis_digest refresh_digest]\<rparr>"
  using two_calls_interleaved verify_forked_ledger
  by (simp add: forked_ledger_def genesis_def)

end
